theory Spec2Isabelle
  imports Complex_Main "HOL-Library.Multiset"
begin

section \<open>Numbers and strings of the host language\<close>

text \<open>
  The program is TypeScript. A value of type \<open>number\<close> that holds an integer is modelled
  as an \<open>int\<close>; this is exact as long as the value and the intermediate results stay
  inside the range where doubles represent integers exactly (up to \<open>2^53\<close>), which covers
  every number the quiz generates. Beyond that range the program rounds where the model
  does not, so what is stated about printing, parsing and products of numbers is stated
  inside it. A string is the list of its UTF-16 code units, each a \<open>nat\<close>. \<open>u\<close> turns an
  ASCII literal into such a list.
\<close>

type_synonym jsstring = "nat list"

definition u :: "string \<Rightarrow> jsstring" where
  "u s = map of_char s"

text \<open>
  The remainder operator \<open>a % b\<close> truncates towards zero: the result has the sign of the
  dividend. Every call site of the program has a divisor \<open>b \<ge> 2\<close>.
\<close>

definition js_rem :: "int \<Rightarrow> int \<Rightarrow> int" where
  "js_rem a b = sgn a * (\<bar>a\<bar> mod \<bar>b\<bar>)"

section \<open>Arithmetic utilities\<close>

subsection \<open>isPrime\<close>

text \<open>The loop \<open>for (let d = 3; d * d <= n; d += 2)\<close> of \<open>isPrime\<close>, entered at \<open>d\<close>.\<close>

function isPrime_loop :: "int \<Rightarrow> int \<Rightarrow> bool" where
  "isPrime_loop n d =
     (if d * d \<le> n
      then (if js_rem n d = 0 then False else isPrime_loop n (d + 2))
      else True)"
  by pat_completeness auto
termination
proof (relation "measure (\<lambda>(n, d). nat (n + 1 - d))")
  show "wf (measure (\<lambda>(n, d). nat (n + 1 - d)))"
    by simp
next
  fix n d :: int
  assume le: "d * d \<le> n"
  have "d \<le> d * d"
  proof (cases "d \<le> 0")
    case True
    then have "0 \<le> d * d" by (simp add: mult_nonpos_nonpos)
    with True show ?thesis by linarith
  next
    case False
    then have "1 * d \<le> d * d" by (intro mult_right_mono) auto
    then show ?thesis by simp
  qed
  with le show "((n, d + 2), (n, d)) \<in> measure (\<lambda>(n, d). nat (n + 1 - d))"
    by simp
qed

declare isPrime_loop.simps [simp del]

definition isPrime :: "int \<Rightarrow> bool" where
  "isPrime n =
     (if n < 2 then False
      else if n = 2 then True
      else if js_rem n 2 = 0 then False
      else isPrime_loop n 3)"

subsection \<open>smallestFactor\<close>

text \<open>The result \<open>null\<close> is \<open>None\<close>.\<close>

function smallestFactor_loop :: "int \<Rightarrow> int \<Rightarrow> int option" where
  "smallestFactor_loop n d =
     (if d * d \<le> n
      then (if js_rem n d = 0 then Some d else smallestFactor_loop n (d + 2))
      else None)"
  by pat_completeness auto
termination
proof (relation "measure (\<lambda>(n, d). nat (n + 1 - d))")
  show "wf (measure (\<lambda>(n, d). nat (n + 1 - d)))"
    by simp
next
  fix n d :: int
  assume le: "d * d \<le> n"
  have "d \<le> d * d"
  proof (cases "d \<le> 0")
    case True
    then have "0 \<le> d * d" by (simp add: mult_nonpos_nonpos)
    with True show ?thesis by linarith
  next
    case False
    then have "1 * d \<le> d * d" by (intro mult_right_mono) auto
    then show ?thesis by simp
  qed
  with le show "((n, d + 2), (n, d)) \<in> measure (\<lambda>(n, d). nat (n + 1 - d))"
    by simp
qed

declare smallestFactor_loop.simps [simp del]

definition smallestFactor :: "int \<Rightarrow> int option" where
  "smallestFactor n =
     (if n < 2 then None
      else if js_rem n 2 = 0 then Some 2
      else smallestFactor_loop n 3)"

subsection \<open>primeFactors\<close>

text \<open>
  The inner loop \<open>while (x % d === 0) { factors.push(d); x = x / d; }\<close> does not stop
  for every pair of numbers (it runs forever at \<open>x = 0\<close>), so both loops are partial
  functions into \<open>option\<close>, where \<open>None\<close> is a run that never returns. The state of the
  loops is \<open>x\<close>, \<open>d\<close> and the array \<open>factors\<close>. The division \<open>x / d\<close> is only executed
  when \<open>d\<close> divides \<open>x\<close>, where it is the integer quotient.
\<close>

partial_function (option) primeFactors_inner ::
    "int \<Rightarrow> int \<Rightarrow> int list \<Rightarrow> (int \<times> int list) option" where
  "primeFactors_inner x d factors =
     (if js_rem x d = 0
      then primeFactors_inner (x div d) d (factors @ [d])
      else Some (x, factors))"

partial_function (option) primeFactors_outer ::
    "int \<Rightarrow> int \<Rightarrow> int list \<Rightarrow> (int \<times> int list) option" where
  "primeFactors_outer x d factors =
     (if x \<ge> 2 \<and> d * d \<le> x
      then (case primeFactors_inner x d factors of
              None \<Rightarrow> None
            | Some (x', factors') \<Rightarrow>
                primeFactors_outer x' (if d = 2 then 3 else d + 2) factors')
      else Some (x, factors))"

declare primeFactors_inner.simps [code] primeFactors_outer.simps [code]

definition primeFactors :: "int \<Rightarrow> int list option" where
  "primeFactors n =
     (case primeFactors_outer n 2 [] of
        None \<Rightarrow> None
      | Some (x, factors) \<Rightarrow> Some (if x > 1 then factors @ [x] else factors))"

subsection \<open>Reference notions\<close>

text \<open>
  The mathematical notion of a prime number, against which the utilities are checked:
  an integer greater than one whose only positive divisors are one and itself.
\<close>

definition prime_int :: "int \<Rightarrow> bool" where
  "prime_int p \<longleftrightarrow> 1 < p \<and> (\<forall>m. 0 < m \<and> m dvd p \<longrightarrow> m = 1 \<or> m = p)"

text \<open>
  The invariant of the outer loop of \<open>primeFactors\<close>: no number from \<open>2\<close> up to, but
  excluding, the trial divisor \<open>d\<close> divides what is left of \<open>x\<close>.
\<close>

definition no_divisor_below :: "int \<Rightarrow> int \<Rightarrow> bool" where
  "no_divisor_below d x \<longleftrightarrow> (\<forall>k. 2 \<le> k \<and> k < d \<longrightarrow> \<not> k dvd x)"

text \<open>The sum of the decimal digits of a natural number.\<close>

fun digit_sum :: "nat \<Rightarrow> nat" where
  "digit_sum n = (if n < 10 then n else digit_sum (n div 10) + n mod 10)"

declare digit_sum.simps [simp del]

section \<open>Conversions between numbers and strings\<close>

subsection \<open>Number to string\<close>

text \<open>
  \<open>String(n)\<close> and the interpolation \<open>${n}\<close> of an integer-valued number: the decimal
  digits, with a leading minus sign below zero. From 22 digits on the language switches
  to exponent notation: the digits without their trailing zeros, a decimal point after
  the first one if more than one is left, then \<open>e+\<close> and the exponent. For a value
  beyond \<open>2^53\<close> the language prints the shortest digits that read back as the same
  double; the model prints the digits of the integer itself. That is the same string
  for every integer up to \<open>2^53\<close>, and for every larger one that has no more
  significant digits than a double holds (as \<open>1.2e22\<close>).
\<close>

fun digits_of :: "nat \<Rightarrow> jsstring" where
  "digits_of n = (if n < 10 then [48 + n] else digits_of (n div 10) @ [48 + n mod 10])"

declare digits_of.simps [simp del]

definition strip_trailing_zeros :: "jsstring \<Rightarrow> jsstring" where
  "strip_trailing_zeros ds = rev (dropWhile (\<lambda>c. c = 48) (rev ds))"

definition nat_toString :: "nat \<Rightarrow> jsstring" where
  "nat_toString n =
     (let ds = digits_of n in
      if length ds \<le> 21 then ds
      else let s = strip_trailing_zeros ds in
           (if length s = 1 then s else hd s # 46 # tl s)
             @ [101, 43] @ digits_of (length ds - 1))"

definition Number_toString :: "int \<Rightarrow> jsstring" where
  "Number_toString x = (if x < 0 then 45 # nat_toString (nat (- x)) else nat_toString (nat x))"

text \<open>\<open>Array.prototype.join\<close> on strings.\<close>

fun join :: "jsstring \<Rightarrow> jsstring list \<Rightarrow> jsstring" where
  "join sep [] = []"
| "join sep [s] = s"
| "join sep (s # t # ss) = s @ sep @ join sep (t # ss)"

subsection \<open>String to number\<close>

text \<open>
  The values \<open>Number(t)\<close> can return. \<open>Fin q\<close> is a finite number of mathematical value
  \<open>q\<close>. A decimal literal whose magnitude reaches \<open>2^1024 - 2^970\<close> rounds to an
  infinity; below that bound the rounding of the literal to the nearest double is not
  modelled, so \<open>Fin\<close> carries the exact value of the literal. This is the value the
  program sees for every literal that is a double, among them all integers up to
  \<open>2^53\<close> and short binary fractions such as \<open>2.5\<close>.
\<close>

datatype jsnum = Fin rat | PosInfinity | NegInfinity | NaN

definition to_number :: "rat \<Rightarrow> jsnum" where
  "to_number q =
     (if \<bar>q\<bar> \<ge> 2 ^ 1024 - 2 ^ 970 then (if q < 0 then NegInfinity else PosInfinity)
      else Fin q)"

text \<open>White space of the language: what \<open>\s\<close> matches and what \<open>trim\<close> removes.\<close>

definition is_ws :: "nat \<Rightarrow> bool" where
  "is_ws c \<longleftrightarrow>
     c \<in> {9, 10, 11, 12, 13, 32, 160, 5760, 8232, 8233, 8239, 8287, 12288, 65279}
     \<or> (8192 \<le> c \<and> c \<le> 8202)"

definition trim :: "jsstring \<Rightarrow> jsstring" where
  "trim s = rev (dropWhile is_ws (rev (dropWhile is_ws s)))"

definition is_digit :: "nat \<Rightarrow> bool" where
  "is_digit c \<longleftrightarrow> 48 \<le> c \<and> c \<le> 57"

text \<open>The value of a digit in a radix up to 16; 16 for a code unit that is no digit.\<close>

definition digit_val :: "nat \<Rightarrow> nat" where
  "digit_val c =
     (if 48 \<le> c \<and> c \<le> 57 then c - 48
      else if 97 \<le> c \<and> c \<le> 102 then c - 87
      else if 65 \<le> c \<and> c \<le> 70 then c - 55
      else 16)"

definition radix_value :: "nat \<Rightarrow> jsstring \<Rightarrow> nat" where
  "radix_value r ds = foldl (\<lambda>a c. a * r + digit_val c) 0 ds"

text \<open>An optional sign: whether it is a minus, and the rest of the string.\<close>

definition sign_split :: "jsstring \<Rightarrow> bool \<times> jsstring" where
  "sign_split s =
     (if s \<noteq> [] \<and> hd s = 45 then (True, tl s)
      else if s \<noteq> [] \<and> hd s = 43 then (False, tl s)
      else (False, s))"

text \<open>
  The optional exponent part that ends a decimal literal: \<open>e\<close> or \<open>E\<close>, an optional
  sign and at least one digit. \<open>None\<close> when the rest of the string is something else.
\<close>

definition exponent_part :: "jsstring \<Rightarrow> int option" where
  "exponent_part s =
     (if s = [] then Some 0
      else if hd s = 101 \<or> hd s = 69 then
        (let (neg, ds) = sign_split (tl s) in
         if ds \<noteq> [] \<and> list_all is_digit ds
         then Some (if neg then - int (radix_value 10 ds) else int (radix_value 10 ds))
         else None)
      else None)"

text \<open>
  An unsigned decimal literal: digits, an optional point with optional digits after it,
  or a point followed by digits; then the optional exponent.
\<close>

definition StrUnsignedDecimalLiteral :: "jsstring \<Rightarrow> rat option" where
  "StrUnsignedDecimalLiteral s =
     (let ip = takeWhile is_digit s;
          r1 = dropWhile is_digit s;
          (fp, r2) = (if r1 \<noteq> [] \<and> hd r1 = 46
                      then (takeWhile is_digit (tl r1), dropWhile is_digit (tl r1))
                      else ([], r1))
      in if ip = [] \<and> fp = [] then None
         else (case exponent_part r2 of
                 None \<Rightarrow> None
               | Some e \<Rightarrow>
                   let m = of_nat (radix_value 10 (ip @ fp)) / 10 ^ length fp
                   in Some (if e \<ge> 0 then m * 10 ^ nat e else m / 10 ^ nat (- e))))"

text \<open>Binary, octal and hexadecimal integer literals; they take no sign.\<close>

definition NonDecimalIntegerLiteral :: "jsstring \<Rightarrow> rat option" where
  "NonDecimalIntegerLiteral s =
     (case s of
        z # p # ds \<Rightarrow>
          (let r = (if p = 98 \<or> p = 66 then 2
                    else if p = 111 \<or> p = 79 then 8
                    else if p = 120 \<or> p = 88 then 16
                    else (0::nat))
           in if z = 48 \<and> r \<noteq> 0 \<and> ds \<noteq> [] \<and> list_all (\<lambda>c. digit_val c < r) ds
              then Some (of_nat (radix_value r ds))
              else None)
      | _ \<Rightarrow> None)"

text \<open>\<open>Number(t)\<close> on a string.\<close>

definition Number :: "jsstring \<Rightarrow> jsnum" where
  "Number str =
     (let s = trim str in
      if s = [] then Fin 0
      else (case NonDecimalIntegerLiteral s of
              Some q \<Rightarrow> to_number q
            | None \<Rightarrow>
                (let (neg, t) = sign_split s in
                 if t = u ''Infinity'' then (if neg then NegInfinity else PosInfinity)
                 else (case StrUnsignedDecimalLiteral t of
                         None \<Rightarrow> NaN
                       | Some q \<Rightarrow> to_number (if neg then - q else q)))))"

definition isFinite :: "jsnum \<Rightarrow> bool" where
  "isFinite k = (case k of Fin q \<Rightarrow> True | _ \<Rightarrow> False)"

definition isInteger :: "jsnum \<Rightarrow> bool" where
  "isInteger k = (case k of Fin q \<Rightarrow> of_int \<lfloor>q\<rfloor> = q | _ \<Rightarrow> False)"

text \<open>The comparison \<open>k >= 2\<close> of a number with an integer constant.\<close>

definition js_ge :: "jsnum \<Rightarrow> int \<Rightarrow> bool" where
  "js_ge k c = (case k of Fin q \<Rightarrow> of_int c \<le> q | PosInfinity \<Rightarrow> True | _ \<Rightarrow> False)"

text \<open>The integer held by an integer-valued number.\<close>

definition int_of :: "jsnum \<Rightarrow> int" where
  "int_of k = (case k of Fin q \<Rightarrow> \<lfloor>q\<rfloor> | _ \<Rightarrow> 0)"

text \<open>
  Where the model is the program. The finite numbers of the language are the doubles:
  an integer of magnitude below \<open>2^53\<close> times a power of two with an exponent from
  \<open>-1074\<close> to \<open>971\<close>. On a literal whose value is a double \<open>Number\<close> returns that value,
  and up to \<open>Number.MAX_SAFE_INTEGER\<close>, which is \<open>2^53 - 1\<close>, integers are printed with
  their own digits and multiplied without rounding. A number is called exact here when
  it is a double of magnitude up to that bound.
\<close>

definition MAX_SAFE_INTEGER :: int where
  "MAX_SAFE_INTEGER = 2 ^ 53 - 1"

definition is_double :: "rat \<Rightarrow> bool" where
  "is_double q \<longleftrightarrow>
     (\<exists>(m::int) (j::nat). \<bar>m\<bar> < 2 ^ 53
        \<and> ((j \<le> 971 \<and> q = of_int m * 2 ^ j) \<or> (j \<le> 1074 \<and> q = of_int m / 2 ^ j)))"

definition exact_number :: "jsnum \<Rightarrow> bool" where
  "exact_number k =
     (case k of Fin q \<Rightarrow> is_double q \<and> \<bar>q\<bar> \<le> of_int MAX_SAFE_INTEGER | _ \<Rightarrow> False)"

section \<open>Text utilities\<close>

text \<open>
  \<open>toLowerCase\<close> maps code units one by one. The mapping is the language's on Basic
  Latin and Latin-1 (up to U+00FF); a code unit above that range is left as it is. No
  letter above that range lower-cases to a digit, a sign, a point, a separator or white
  space, nor to any string that one of the quiz's answers contains, so neither the
  parsed factors nor a verdict depend on that part of the mapping.
\<close>

definition toLowerCase_unit :: "nat \<Rightarrow> nat" where
  "toLowerCase_unit c =
     (if (65 \<le> c \<and> c \<le> 90) \<or> (192 \<le> c \<and> c \<le> 222 \<and> c \<noteq> 215) then c + 32 else c)"

definition toLowerCase :: "jsstring \<Rightarrow> jsstring" where
  "toLowerCase s = map toLowerCase_unit s"

text \<open>\<open>s.replace(/[...]/g, " ")\<close> for a class of single code units.\<close>

definition replace_class :: "nat set \<Rightarrow> jsstring \<Rightarrow> jsstring" where
  "replace_class cls s = map (\<lambda>c. if c \<in> cls then 32 else c) s"

text \<open>\<open>s.replace(/\s+/g, " ")\<close>: every maximal run of white space becomes one space.\<close>

function collapse_ws :: "jsstring \<Rightarrow> jsstring" where
  "collapse_ws [] = []"
| "collapse_ws (c # cs) =
     (if is_ws c then 32 # collapse_ws (dropWhile is_ws cs) else c # collapse_ws cs)"
  by pat_completeness auto
termination
proof (relation "measure length")
  show "wf (measure length)"
    by simp
next
  fix c :: nat and cs :: jsstring
  have "length (dropWhile is_ws cs) \<le> length cs"
    by (rule length_dropWhile_le)
  then show "(dropWhile is_ws cs, c # cs) \<in> measure length"
    by simp
next
  fix c :: nat and cs :: jsstring
  show "(cs, c # cs) \<in> measure length"
    by simp
qed

text \<open>\<open>s.split(" ")\<close>; the empty string splits into one empty string.\<close>

fun split_sp :: "jsstring \<Rightarrow> jsstring list" where
  "split_sp [] = [[]]"
| "split_sp (c # cs) =
     (if c = 32 then [] # split_sp cs
      else (case split_sp cs of
              [] \<Rightarrow> [[c]]
            | w # ws \<Rightarrow> (c # w) # ws))"

subsection \<open>normalizeFactorsInput\<close>

definition normalizeFactorsInput :: "jsstring \<Rightarrow> jsnum list" where
  "normalizeFactorsInput text =
     (let cleaned =
            trim (collapse_ws (replace_class {59, 44}
              (replace_class {215, 120, 88, 42, 183} (toLowerCase text))))
      in if cleaned = [] then []
         else filter isFinite (map Number (split_sp cleaned)))"

subsection \<open>multisetEqual and productOf\<close>

text \<open>
  The comparator \<open>(x, y) => x - y\<close> sorts numbers ascending; \<open>every\<close> passes each
  element with its index.
\<close>

definition multisetEqual :: "int list \<Rightarrow> int list \<Rightarrow> bool" where
  "multisetEqual a b =
     (if length a \<noteq> length b then False
      else let aa = sort a; bb = sort b
           in list_all (\<lambda>(v, i). v = bb ! i) (zip aa [0..<length aa]))"

text \<open>
  \<open>productOf\<close> on integers: the product itself, which is what the program computes as
  long as the product is at most \<open>2^53\<close>; a larger one the program rounds.
\<close>

definition productOf :: "int list \<Rightarrow> int" where
  "productOf arr = foldl (\<lambda>acc v. acc * v) 1 arr"

subsection \<open>divisibilityInfo\<close>

text \<open>
  The digits that are left after the filter \<open>/\d/\<close> are decimal digits, on which
  \<open>Number(b)\<close> is the digit's value.
\<close>

record divisibility =
  by2 :: bool
  by3 :: bool
  by5 :: bool
  by6 :: bool
  by10 :: bool

text \<open>\<open>cs.reduce((a, b) => a + Number(b), 0)\<close> on a list of digits.\<close>

definition reduce_digits :: "jsstring \<Rightarrow> int" where
  "reduce_digits cs = foldl (\<lambda>a b. a + int (digit_val b)) 0 cs"

definition sumDigits :: "jsstring \<Rightarrow> int" where
  "sumDigits s = reduce_digits (filter is_digit s)"

definition divisibilityInfo :: "int \<Rightarrow> divisibility" where
  "divisibilityInfo n =
     \<lparr> by2 = (js_rem n 2 = 0),
       by3 = (js_rem (sumDigits (Number_toString n)) 3 = 0),
       by5 = (js_rem n 5 = 0),
       by6 = (js_rem n 6 = 0),
       by10 = (js_rem n 10 = 0) \<rparr>"

section \<open>Exercises\<close>

datatype topic = divisibilidade | primos | fatoracao | potenciacao | resto

definition TYPES :: "topic list" where
  "TYPES = [divisibilidade, primos, fatoracao, potenciacao, resto]"

text \<open>
  An exercise object. The fields \<open>value\<close> (here \<open>val\<close>) and \<open>expected\<close> exist on
  factorization exercises only; on the others they are \<open>undefined\<close>, here \<open>None\<close>.
\<close>

record exercise =
  type :: topic
  prompt :: jsstring
  answer :: jsstring
  explain :: jsstring
  val :: "int option"
  expected :: "int list option"

text \<open>
  \<open>Math.floor(Math.random() * k)\<close> for a result \<open>r\<close> of \<open>Math.random()\<close>, which lies in
  \<open>[0, 1)\<close>, and the choice of an element of an array by such an index. The product is
  the exact one; the program's is rounded to a double, which for a few values of \<open>r\<close>
  next to a multiple of \<open>1 / k\<close> gives the next index, and never one outside the array.
\<close>

definition random_index :: "rat \<Rightarrow> nat \<Rightarrow> nat" where
  "random_index r k = nat \<lfloor>r * of_nat k\<rfloor>"

definition pick :: "'a list \<Rightarrow> rat \<Rightarrow> 'a" where
  "pick xs r = xs ! random_index r (length xs)"

text \<open>
  \<open>generateExercise\<close>, given the results \<open>r0\<close>, \<open>r1\<close>, \<open>r2\<close> of its calls of
  \<open>Math.random()\<close> in the order in which they are made (the topics \<open>primos\<close> and
  \<open>fatoracao\<close> make two calls only). The result is \<open>None\<close> when \<open>primeFactors\<close> does not
  return. In the topic \<open>divisibilidade\<close> the number has two or three digits, so that the
  sum runs over digits only.
\<close>

definition generateExercise :: "rat \<Rightarrow> rat \<Rightarrow> rat \<Rightarrow> exercise option" where
  "generateExercise r0 r1 r2 =
     (case pick TYPES r0 of
        divisibilidade \<Rightarrow>
          (let n = 10 + int (random_index r1 190);
               by = pick [2, 3, 5, 10] r2;
               correct = (js_rem n by = 0)
           in Some \<lparr> type = divisibilidade,
                     prompt = u ''O n'' @ [250] @ u ''mero '' @ Number_toString n @ u '' ''
                       @ [233] @ u '' divis'' @ [237] @ u ''vel por '' @ Number_toString by
                       @ u ''? (S/N)'',
                     answer = (if correct then u ''S'' else u ''N''),
                     explain =
                       (if by = 3
                        then u ''Soma dos algarismos de '' @ Number_toString n @ u '' = ''
                          @ Number_toString (reduce_digits (Number_toString n)) @ u ''; ''
                          @ (if correct then [233] else u ''n'' @ [227] @ u ''o '' @ [233])
                          @ u '' m'' @ [250] @ u ''ltiplo de 3.''
                        else u ''Regra pr'' @ [225] @ u ''tica de divisibilidade por ''
                          @ Number_toString by @ u ''.''),
                     val = None, expected = None \<rparr>)
      | primos \<Rightarrow>
          (let n = pick [11, 12, 13, 14, 15, 16, 17, 19, 21, 23, 25, 29, 31, 33] r1
           in Some \<lparr> type = primos,
                     prompt = Number_toString n @ u '' '' @ [233] @ u '' primo? (S/N)'',
                     answer = (if isPrime n then u ''sim'' else u ''n'' @ [227] @ u ''o''),
                     explain =
                       (if isPrime n
                        then Number_toString n @ u '' tem apenas dois divisores (1 e ele mesmo).''
                        else Number_toString n @ u '' n'' @ [227] @ u ''o '' @ [233]
                          @ u '' primo; menor divisor: ''
                          @ (case smallestFactor n of None \<Rightarrow> [8212] | Some f \<Rightarrow> Number_toString f)
                          @ u ''.''),
                     val = None, expected = None \<rparr>)
      | fatoracao \<Rightarrow>
          (let n = pick [12, 18, 20, 24, 36, 45, 50, 60] r1
           in case primeFactors n of
                None \<Rightarrow> None
              | Some expectedFactors \<Rightarrow>
                  (let fac = join (u '' '' @ [215] @ u '' '') (map Number_toString expectedFactors)
                   in Some \<lparr> type = fatoracao,
                             prompt = u ''Fatore '' @ Number_toString n @ u '' em primos.'',
                             answer = fac,
                             explain = u ''Fatora'' @ [231, 227] @ u ''o: '' @ fac @ u ''.'',
                             val = Some n, expected = Some expectedFactors \<rparr>))
      | potenciacao \<Rightarrow>
          (let base = pick [2, 3, 4, 5] r1;
               exp = pick [2, 3, 4] r2
           in Some \<lparr> type = potenciacao,
                     prompt = u ''Calcule '' @ Number_toString base @ u ''^'' @ Number_toString exp
                       @ u '' ('' @ Number_toString base @ u '' elevado a '' @ Number_toString exp
                       @ u '').'',
                     answer = Number_toString (base ^ nat exp),
                     explain = Number_toString base @ u '' multiplicado por si mesmo ''
                       @ Number_toString exp @ u '' vezes = '' @ Number_toString (base ^ nat exp),
                     val = None, expected = None \<rparr>)
      | resto \<Rightarrow>
          (let a = 10 + int (random_index r1 90);
               b = 3 + int (random_index r2 9);
               q = a div b;
               r = js_rem a b
           in Some \<lparr> type = resto,
                     prompt = u ''Em '' @ Number_toString a @ u '' '' @ [247] @ u '' ''
                       @ Number_toString b @ u '', qual '' @ [233] @ u '' o resto?'',
                     answer = Number_toString r,
                     explain = Number_toString a @ u '' = '' @ Number_toString b @ u '' ''
                       @ [215] @ u '' '' @ Number_toString q @ u '' + '' @ Number_toString r
                       @ u ''.'',
                     val = None, expected = None \<rparr>))"

section \<open>Grading\<close>

text \<open>
  What \<open>submit\<close> hands to \<open>setFeedback\<close>. After that call \<open>submit\<close> updates the stored
  statistics from \<open>correct\<close>; the verdict does not depend on them.
\<close>

record feedback =
  correct :: bool
  explanation :: jsstring
  expected_answer :: jsstring

text \<open>The branch of \<open>submit\<close> for every topic but factorization.\<close>

definition submit_text :: "exercise \<Rightarrow> jsstring \<Rightarrow> feedback" where
  "submit_text ex input =
     (let normalized = toLowerCase (trim input)
      in \<lparr> correct = (normalized = toLowerCase (answer ex)),
           explanation = explain ex,
           expected_answer = answer ex \<rparr>)"

text \<open>
  The four diagnostics of the factorization branch: the accepted formats, the
  restriction to integers from 2 on, the list of the factors that are not prime, and
  the product that was typed in against the one required.
\<close>

definition msg_format :: jsstring where
  "msg_format = u ''Formato aceito: 2x2x3, 2 2 3, 2,2,3 ou 2'' @ [215] @ u ''2'' @ [215] @ u ''3.''"

definition msg_integers :: jsstring where
  "msg_integers = u ''Use apenas inteiros '' @ [8805] @ u '' 2.''"

definition msg_non_primes :: "int list \<Rightarrow> jsstring" where
  "msg_non_primes nonPrimes =
     u ''Nem todos os fatores s'' @ [227] @ u ''o primos (''
       @ join (u '', '') (map Number_toString nonPrimes)
       @ u ''). Dica: fatorar compostos (ex.: 6 = 2x3).''"

definition msg_product :: "int \<Rightarrow> int \<Rightarrow> jsstring" where
  "msg_product product v =
     u ''O produto dos fatores digitados '' @ [233] @ u '' '' @ Number_toString product
       @ u '', mas deve ser '' @ Number_toString v @ u ''.''"

text \<open>
  The branch of \<open>submit\<close> for a factorization exercise of subject value \<open>v\<close>. Once every
  parsed factor has passed the test \<open>Number.isInteger(k) && k >= 2\<close>, the factors are
  the integers \<open>ks\<close>. The result is \<open>None\<close> when \<open>primeFactors\<close> is called and does not
  return.
\<close>

definition submit_factors :: "exercise \<Rightarrow> int \<Rightarrow> jsstring \<Rightarrow> feedback option" where
  "submit_factors ex v input =
     (let factors = normalizeFactorsInput input in
      if length factors = 0 then
        Some \<lparr> correct = False, explanation = msg_format, expected_answer = answer ex \<rparr>
      else if \<not> list_all (\<lambda>k. isInteger k \<and> js_ge k 2) factors then
        Some \<lparr> correct = False, explanation = msg_integers, expected_answer = answer ex \<rparr>
      else
        (let ks = map int_of factors in
         if list_ex (\<lambda>k. \<not> isPrime k) ks then
           (let nonPrimes = filter (\<lambda>k. \<not> isPrime k) ks
            in Some \<lparr> correct = False, explanation = msg_non_primes nonPrimes,
                      expected_answer = answer ex \<rparr>)
         else if productOf ks \<noteq> v then
           (let prod = productOf ks
            in Some \<lparr> correct = False, explanation = msg_product prod v,
                      expected_answer = answer ex \<rparr>)
         else
           (case (case expected ex of Some e \<Rightarrow> Some e | None \<Rightarrow> primeFactors v) of
              None \<Rightarrow> None
            | Some expectedFactors \<Rightarrow>
                (let c = multisetEqual ks expectedFactors;
                     shown = join (u '' '' @ [215] @ u '' '') (map Number_toString expectedFactors)
                 in Some \<lparr> correct = c,
                           explanation =
                             (if c then u ''Perfeito! '' @ Number_toString v @ u '' = '' @ shown
                                @ u ''.''
                              else u ''Revise: '' @ Number_toString v @ u '' = '' @ shown @ u ''.''),
                           expected_answer = shown \<rparr>))))"

text \<open>
  \<open>submit\<close>: the test \<open>ex.type === "fatoracao" && ex.value\<close> holds when the value is
  there and is not zero.
\<close>

definition submit :: "exercise \<Rightarrow> jsstring \<Rightarrow> feedback option" where
  "submit ex input =
     (case val ex of
        Some v \<Rightarrow>
          if type ex = fatoracao \<and> v \<noteq> 0 then submit_factors ex v input
          else Some (submit_text ex input)
      | None \<Rightarrow> Some (submit_text ex input))"

section \<open>Joined factor lists\<close>

text \<open>
  The strings \<open>ws\<close> joined with the separators \<open>ss\<close>, one between each two neighbours,
  and what a separator may be: a non-empty string of the separator characters \<open>x\<close>, \<open>X\<close>,
  the multiplication sign, the asterisk, the middle dot, the comma, the semicolon and
  white space.
\<close>

fun interleave :: "jsstring list \<Rightarrow> jsstring list \<Rightarrow> jsstring" where
  "interleave [] ss = []"
| "interleave [w] ss = w"
| "interleave (w # w' # ws) [] = w"
| "interleave (w # w' # ws) (s # ss) = w @ s @ interleave (w' # ws) ss"

definition accepted_separator :: "jsstring \<Rightarrow> bool" where
  "accepted_separator s \<longleftrightarrow>
     s \<noteq> [] \<and> list_all (\<lambda>c. c \<in> {120, 88, 215, 42, 183, 44, 59} \<or> is_ws c) s"

text \<open>
  The two kinds of code units of a joined factor list: those a printed number is made
  of (digits, the point, \<open>e\<close> and the plus sign of an exponent), and what the three
  character-wise steps of \<open>normalizeFactorsInput\<close> (\<open>toLowerCase\<close> and the two
  replacements) make of a code unit.
\<close>

definition number_unit :: "nat \<Rightarrow> bool" where
  "number_unit c \<longleftrightarrow> is_digit c \<or> c = 46 \<or> c = 101 \<or> c = 43"

definition clean_unit :: "nat \<Rightarrow> nat" where
  "clean_unit c =
     (let l = toLowerCase_unit c;
          a = (if l \<in> {215, 120, 88, 42, 183} then 32 else l)
      in if a \<in> {59, 44} then 32 else a)"

section \<open>Properties of the arithmetic utilities\<close>

subsection \<open>Trial division\<close>

lemma js_rem_eq_0_iff: "js_rem a b = 0 \<longleftrightarrow> b dvd a"
  unfolding js_rem_def by (auto simp: mod_eq_0_iff_dvd sgn_eq_0_iff)

lemma js_rem_nonneg: "0 \<le> a \<Longrightarrow> 0 < b \<Longrightarrow> js_rem a b = a mod b"
  unfolding js_rem_def by (auto simp: sgn_if)

lemma square_mono_int: "0 < d \<Longrightarrow> d \<le> k \<Longrightarrow> d * d \<le> k * (k::int)"
  by (intro mult_mono) auto

lemma isPrime_loop_iff:
  "0 < d \<Longrightarrow> isPrime_loop n d \<longleftrightarrow> \<not> (\<exists>k. d \<le> k \<and> even (k - d) \<and> k * k \<le> n \<and> k dvd n)"
proof (induction n d rule: isPrime_loop.induct)
  case (1 n d)
  show ?case
  proof (cases "d * d \<le> n")
    case False
    then have "isPrime_loop n d" by (subst isPrime_loop.simps) simp
    moreover have "\<not> k * k \<le> n" if "d \<le> k" for k
      using square_mono_int[OF \<open>0 < d\<close> that] False by linarith
    ultimately show ?thesis by blast
  next
    case le: True
    show ?thesis
    proof (cases "d dvd n")
      case True
      then have "\<not> isPrime_loop n d" using le by (subst isPrime_loop.simps) (simp add: js_rem_eq_0_iff)
      moreover have "d \<le> d \<and> even (d - d) \<and> d * d \<le> n \<and> d dvd n" using le True by simp
      ultimately show ?thesis by blast
    next
      case False
      then have "isPrime_loop n d = isPrime_loop n (d + 2)"
        using le by (subst isPrime_loop.simps) (simp add: js_rem_eq_0_iff)
      also have "\<dots> \<longleftrightarrow> \<not> (\<exists>k. d + 2 \<le> k \<and> even (k - (d + 2)) \<and> k * k \<le> n \<and> k dvd n)"
        using "1.IH"[OF le] "1.prems" False by (simp add: js_rem_eq_0_iff)
      also have "\<dots> \<longleftrightarrow> \<not> (\<exists>k. d \<le> k \<and> even (k - d) \<and> k * k \<le> n \<and> k dvd n)"
      proof -
        have "(\<exists>k. d + 2 \<le> k \<and> even (k - (d + 2)) \<and> k * k \<le> n \<and> k dvd n) \<longleftrightarrow>
              (\<exists>k. d \<le> k \<and> even (k - d) \<and> k * k \<le> n \<and> k dvd n)" (is "?L \<longleftrightarrow> ?R")
        proof
          assume ?L
          then obtain k where k: "d + 2 \<le> k" "even (k - (d + 2))" "k * k \<le> n" "k dvd n"
            by blast
          from k(1,2) have "d \<le> k \<and> even (k - d)" by simp
          with k(3,4) show ?R by blast
        next
          assume ?R
          then obtain k where k: "d \<le> k" "even (k - d)" "k * k \<le> n" "k dvd n"
            by blast
          from k(4) False have "k \<noteq> d" by blast
          with k(1,2) have "d + 2 \<le> k \<and> even (k - (d + 2))" by presburger
          with k(3,4) show ?L by blast
        qed
        then show ?thesis by simp
      qed
      finally show ?thesis .
    qed
  qed
qed

lemma smallestFactor_loop_None: "smallestFactor_loop n d = None \<longleftrightarrow> isPrime_loop n d"
proof (induction n d rule: isPrime_loop.induct)
  case (1 n d)
  show ?case
    by (subst smallestFactor_loop.simps, subst isPrime_loop.simps) (use 1 in auto)
qed

lemma smallestFactor_loop_Some:
  "smallestFactor_loop n d = Some k \<Longrightarrow> d \<le> k \<and> k * k \<le> n \<and> k dvd n"
proof (induction n d rule: smallestFactor_loop.induct)
  case (1 n d)
  from "1.prems" have le: "d * d \<le> n"
    by (subst (asm) smallestFactor_loop.simps) (simp split: if_splits)
  show ?case
  proof (cases "js_rem n d = 0")
    case True
    with le "1.prems" have "k = d" by (subst (asm) smallestFactor_loop.simps) simp
    with True le show ?thesis by (simp add: js_rem_eq_0_iff)
  next
    case False
    with le "1.prems" have "smallestFactor_loop n (d + 2) = Some k"
      by (subst (asm) smallestFactor_loop.simps) simp
    from "1.IH"[OF le False this] show ?thesis by simp
  qed
qed


lemma divisor_pair:
  fixes n m :: int
  assumes "0 < m" "m dvd n" "m \<noteq> 1" "m \<noteq> n" "0 < n"
  obtains j where "1 < j" "j * j \<le> n" "j dvd n"
proof -
  define m' where "m' = n div m"
  have n: "n = m * m'" using assms(2) by (simp add: m'_def)
  have m1: "1 < m" using assms by linarith
  have "0 < m'" using n assms(1,5) by (metis zero_less_mult_pos)
  moreover have "m' \<noteq> 1" using n assms(4) by auto
  ultimately have m'1: "1 < m'" by linarith
  show thesis
  proof (cases "m \<le> m'")
    case True
    then have "m * m \<le> m * m'" using m1 by (intro mult_left_mono) auto
    with n m1 assms(2) show thesis by (intro that[of m]) auto
  next
    case False
    then have "m' * m' \<le> m * m'" using m'1 by (intro mult_right_mono) auto
    moreover have "m' dvd n" using n by simp
    ultimately show thesis using n m'1 by (intro that[of m']) auto
  qed
qed

lemma prime_int_iff_no_small_divisor:
  "prime_int n \<longleftrightarrow> 1 < n \<and> \<not> (\<exists>j. 1 < j \<and> j * j \<le> n \<and> j dvd n)"
proof
  assume p: "prime_int n"
  then have n: "1 < n" by (simp add: prime_int_def)
  have False if j: "1 < j" "j * j \<le> n" "j dvd n" for j
  proof -
    from j(1) have "0 < j" "j \<noteq> 1" by simp_all
    with p j(3) have "j = n" unfolding prime_int_def by blast
    with j(2) n have "n * n \<le> n * 1" by simp
    then have "n \<le> 1" using n by (subst (asm) mult_le_cancel_left_pos) auto
    with n show False by simp
  qed
  with n show "1 < n \<and> \<not> (\<exists>j. 1 < j \<and> j * j \<le> n \<and> j dvd n)" by blast
next
  assume a: "1 < n \<and> \<not> (\<exists>j. 1 < j \<and> j * j \<le> n \<and> j dvd n)"
  show "prime_int n"
    unfolding prime_int_def
  proof (intro conjI allI impI)
    show "1 < n" using a by simp
  next
    fix m assume m: "0 < m \<and> m dvd n"
    show "m = 1 \<or> m = n"
    proof (rule ccontr)
      assume "\<not> (m = 1 \<or> m = n)"
      then obtain j where "1 < j" "j * j \<le> n" "j dvd n"
        using divisor_pair[of m n] m a by auto
      with a show False by blast
    qed
  qed
qed

lemma isPrime_iff_prime_int: "isPrime n \<longleftrightarrow> prime_int n"
proof -
  consider "n < 2" | "n = 2" | "2 < n" "even n" | "2 < n" "odd n" by linarith
  then show ?thesis
  proof cases
    case 1
    then show ?thesis by (simp add: isPrime_def prime_int_def)
  next
    case 2
    have "prime_int 2"
      unfolding prime_int_def
    proof (intro conjI allI impI)
      fix m :: int assume "0 < m \<and> m dvd 2"
      then have "0 < m" "m \<le> 2" by (auto dest: zdvd_imp_le)
      then show "m = 1 \<or> m = 2" by linarith
    qed simp
    with 2 show ?thesis by (simp add: isPrime_def)
  next
    case 3
    then have "\<not> isPrime n" by (simp add: isPrime_def js_rem_eq_0_iff)
    moreover have "\<not> prime_int n"
    proof
      assume "prime_int n"
      with 3 have "(2::int) = 1 \<or> 2 = n" unfolding prime_int_def by (metis zero_less_numeral)
      with 3 show False by simp
    qed
    ultimately show ?thesis by simp
  next
    case 4
    then have "isPrime n \<longleftrightarrow> \<not> (\<exists>k. 3 \<le> k \<and> even (k - 3) \<and> k * k \<le> n \<and> k dvd n)"
      by (simp add: isPrime_def js_rem_eq_0_iff isPrime_loop_iff)
    also have "\<dots> \<longleftrightarrow> \<not> (\<exists>j. 1 < j \<and> j * j \<le> n \<and> j dvd n)"
    proof -
      have "3 \<le> j \<and> even (j - 3)" if "1 < j" "j dvd n" for j
      proof -
        from that(2) 4(2) have "odd j" by (meson dvd_trans)
        then have "j \<noteq> 2" by auto
        with that(1) \<open>odd j\<close> show ?thesis by simp
      qed
      moreover have "1 < j" if "3 \<le> j" for j :: int using that by simp
      ultimately show ?thesis by blast
    qed
    finally show ?thesis using 4 by (simp add: prime_int_iff_no_small_divisor)
  qed
qed

subsection \<open>The loops of primeFactors\<close>

lemma primeFactors_inner_result:
  assumes "1 \<le> x" "2 \<le> d"
  shows "\<exists>x' k. primeFactors_inner x d fs = Some (x', fs @ replicate k d)
           \<and> x = x' * d ^ k \<and> \<not> d dvd x' \<and> 1 \<le> x'"
  using assms
proof (induction "nat x" arbitrary: x fs rule: less_induct)
  case less
  show ?case
  proof (cases "d dvd x")
    case False
    then have "primeFactors_inner x d fs = Some (x, fs @ replicate 0 d)"
      by (subst primeFactors_inner.simps) (simp add: js_rem_eq_0_iff)
    with False less.prems show ?thesis by (intro exI[of _ x] exI[of _ 0]) simp
  next
    case True
    define y where "y = x div d"
    have x: "x = y * d" using True by (simp add: y_def)
    have y1: "1 \<le> y"
    proof (rule ccontr)
      assume "\<not> 1 \<le> y"
      then have "y \<le> 0" by simp
      then have "y * d \<le> 0" using less.prems(2) by (simp add: mult_le_0_iff)
      with x less.prems(1) show False by simp
    qed
    have "y * 2 \<le> y * d" using y1 less.prems(2) by (intro mult_left_mono) auto
    with x y1 have "y < x" by linarith
    with y1 have "nat y < nat x" by simp
    from less.hyps[OF this y1 less.prems(2), of "fs @ [d]"]
    obtain x' k where r: "primeFactors_inner y d (fs @ [d]) = Some (x', (fs @ [d]) @ replicate k d)"
      "y = x' * d ^ k" "\<not> d dvd x'" "1 \<le> x'" by blast
    have "primeFactors_inner x d fs = primeFactors_inner y d (fs @ [d])"
      using True by (subst primeFactors_inner.simps) (simp add: js_rem_eq_0_iff y_def)
    with r(1) have "primeFactors_inner x d fs = Some (x', fs @ replicate (Suc k) d)"
      by (simp add: replicate_app_Cons_same)
    moreover have "x = x' * d ^ Suc k" using x r(2) by simp
    ultimately show ?thesis using r(3,4) by blast
  qed
qed



lemma no_divisor_below_prime:
  assumes "no_divisor_below d x" "1 < x" "x < d * d" "0 < d"
  shows "prime_int x"
proof -
  have False if j: "1 < j" "j * j \<le> x" "j dvd x" for j
  proof -
    have "j < d"
    proof (rule ccontr)
      assume "\<not> j < d"
      then have "d * d \<le> j * j" using assms(4) by (intro square_mono_int) auto
      with j(2) assms(3) show False by linarith
    qed
    with assms(1) j show False by (auto simp: no_divisor_below_def)
  qed
  with assms(2) show ?thesis by (auto simp: prime_int_iff_no_small_divisor)
qed

lemma no_divisor_below_self:
  assumes "no_divisor_below d x" "1 < x"
  shows "d \<le> x"
proof (rule ccontr)
  assume "\<not> d \<le> x"
  with assms(2) have "2 \<le> x \<and> x < d" by simp
  with assms(1) have "\<not> x dvd x" unfolding no_divisor_below_def by blast
  then show False by simp
qed

lemma no_divisor_below_divisor_prime:
  assumes "no_divisor_below d x" "d dvd x" "2 \<le> d"
  shows "prime_int d"
  unfolding prime_int_def
proof (intro conjI allI impI)
  show "1 < d" using assms(3) by simp
next
  fix m assume m: "0 < m \<and> m dvd d"
  then have "m \<le> d" using assms(3) by (intro zdvd_imp_le) auto
  moreover have "m dvd x" using m assms(2) by (meson dvd_trans)
  ultimately have "\<not> (2 \<le> m \<and> m < d)"
    using assms(1) unfolding no_divisor_below_def by blast
  with m \<open>m \<le> d\<close> show "m = 1 \<or> m = d" by linarith
qed


lemma no_divisor_below_next:
  assumes nd: "no_divisor_below d x1" and par: "d = 2 \<or> odd d" and d2: "2 \<le> d" and ndvd: "\<not> d dvd x1"
  shows "no_divisor_below (if d = 2 then 3 else d + 2) x1"
  unfolding no_divisor_below_def
proof (intro allI impI)
  fix k assume k: "2 \<le> k \<and> k < (if d = 2 then 3 else d + 2)"
  show "\<not> k dvd x1"
  proof (cases "d = 2")
    case True
    with k have "k = d" by simp
    with ndvd show ?thesis by simp
  next
    case False
    with par have odd: "odd d" by simp
    from False k have "k < d \<or> k = d \<or> k = d + 1" by auto
    then show ?thesis
    proof (elim disjE)
      assume "k < d"
      with k nd show ?thesis unfolding no_divisor_below_def by blast
    next
      assume "k = d"
      with ndvd show ?thesis by simp
    next
      assume k1: "k = d + 1"
      show ?thesis
      proof
        assume "k dvd x1"
        moreover have "2 dvd k" using odd k1 by simp
        ultimately have "2 dvd x1" by (meson dvd_trans)
        moreover have "(2::int) < d" using False d2 by simp
        ultimately show False using nd unfolding no_divisor_below_def by (meson order_refl)
      qed
    qed
  qed
qed

lemma primeFactors_outer_result:
  assumes "1 \<le> x" "2 \<le> d" "d = 2 \<or> odd d" "no_divisor_below d x"
  shows "\<exists>x' gs. primeFactors_outer x d fs = Some (x', fs @ gs)
           \<and> prod_list (gs @ (if 1 < x' then [x'] else [])) = x
           \<and> (\<forall>p\<in>set (gs @ (if 1 < x' then [x'] else [])). prime_int p \<and> d \<le> p)
           \<and> sorted (gs @ (if 1 < x' then [x'] else []))"
  using assms
proof (induction "nat (x + 1 - d)" arbitrary: x d fs rule: less_induct)
  case less
  show ?case
  proof (cases "2 \<le> x \<and> d * d \<le> x")
    case False
    have run: "primeFactors_outer x d fs = Some (x, fs @ [])"
      by (subst primeFactors_outer.simps) (simp only: False if_False append_Nil2)
    show ?thesis
    proof (cases "1 < x")
      case True
      with False have "x < d * d" by simp
      with less.prems True have "prime_int x" "d \<le> x"
        by (auto intro: no_divisor_below_prime no_divisor_below_self)
      with run True show ?thesis by (intro exI[of _ x] exI[of _ "[]"]) simp
    next
      case F: False
      with less.prems(1) have "x = 1" by simp
      with run show ?thesis by (intro exI[of _ x] exI[of _ "[]"]) simp
    qed
  next
    case True
    from primeFactors_inner_result[OF less.prems(1,2), of fs]
    obtain x1 k where inner: "primeFactors_inner x d fs = Some (x1, fs @ replicate k d)"
      "x = x1 * d ^ k" "\<not> d dvd x1" "1 \<le> x1" by blast
    define d' where "d' = (if d = 2 then 3 else d + 2)"
    have d': "d < d'" "2 \<le> d'" "d' = 2 \<or> odd d'"
      using less.prems(2,3) by (auto simp: d'_def)
    have "x1 dvd x" using inner(2) by simp
    then have "no_divisor_below d x1"
      using less.prems(4) unfolding no_divisor_below_def by (meson dvd_trans)
    then have nd': "no_divisor_below d' x1"
      unfolding d'_def using less.prems(2,3) inner(3) by (intro no_divisor_below_next)
    have "1 \<le> d ^ k" using less.prems(2) by simp
    then have "x1 * 1 \<le> x1 * d ^ k" using inner(4) by (intro mult_left_mono) auto
    then have "x1 \<le> x" using inner(2) by simp
    moreover have "d \<le> x"
    proof -
      have "d * 1 \<le> d * d" using less.prems(2) by (intro mult_left_mono) auto
      with True show ?thesis by simp
    qed
    ultimately have "nat (x1 + 1 - d') < nat (x + 1 - d)" using d'(1) by simp
    from less.hyps[OF this inner(4) d'(2,3) nd', of "fs @ replicate k d"]
    obtain x' gs where rec: "primeFactors_outer x1 d' (fs @ replicate k d) = Some (x', (fs @ replicate k d) @ gs)"
      "prod_list (gs @ (if 1 < x' then [x'] else [])) = x1"
      "\<forall>p\<in>set (gs @ (if 1 < x' then [x'] else [])). prime_int p \<and> d' \<le> p"
      "sorted (gs @ (if 1 < x' then [x'] else []))" by blast
    have run: "primeFactors_outer x d fs = Some (x', fs @ (replicate k d @ gs))"
      using True inner(1) rec(1) by (subst primeFactors_outer.simps) (simp add: d'_def)
    let ?r = "gs @ (if 1 < x' then [x'] else [])"
    have prod: "prod_list ((replicate k d @ gs) @ (if 1 < x' then [x'] else [])) = x"
      using rec(2) inner(2) by (simp add: mult.commute)
    have dprime: "prime_int d" if "0 < k"
    proof -
      from that have "d dvd d ^ k" by (cases k) auto
      then have "d dvd x" using inner(2) by simp
      with less.prems show ?thesis by (intro no_divisor_below_divisor_prime[of d x]) auto
    qed
    have ge: "\<forall>p\<in>set ?r. prime_int p \<and> d \<le> p"
      using rec(3) d'(1) by fastforce
    have "\<forall>p\<in>set (replicate k d). prime_int p \<and> d \<le> p"
      using dprime by auto
    with ge have "\<forall>p\<in>set (replicate k d @ ?r). prime_int p \<and> d \<le> p"
      unfolding set_append by blast
    then have elems: "\<forall>p\<in>set ((replicate k d @ gs) @ (if 1 < x' then [x'] else [])). prime_int p \<and> d \<le> p"
      by simp
    have "\<forall>a\<in>set (replicate k d). \<forall>b\<in>set ?r. a \<le> b"
      using ge by auto
    then have "sorted (replicate k d @ ?r)"
      using rec(4) unfolding sorted_append by (simp add: sorted_replicate)
    then have srt: "sorted ((replicate k d @ gs) @ (if 1 < x' then [x'] else []))" by simp
    from run prod elems srt show ?thesis by blast
  qed
qed

lemma primeFactors_correct:
  assumes "2 \<le> n"
  shows "\<exists>fs. primeFactors n = Some fs \<and> sorted fs \<and> (\<forall>p\<in>set fs. prime_int p) \<and> prod_list fs = n"
proof -
  have "no_divisor_below 2 n" by (auto simp: no_divisor_below_def)
  from primeFactors_outer_result[of n 2 "[]", OF _ _ _ this] assms
  obtain x' gs where "primeFactors_outer n 2 [] = Some (x', gs)"
      "prod_list (gs @ (if 1 < x' then [x'] else [])) = n"
      "\<forall>p\<in>set (gs @ (if 1 < x' then [x'] else [])). prime_int p \<and> 2 \<le> p"
      "sorted (gs @ (if 1 < x' then [x'] else []))" by auto
  then show ?thesis by (auto simp: primeFactors_def)
qed

lemma primeFactors_below_2: "n < 2 \<Longrightarrow> primeFactors n = Some []"
  unfolding primeFactors_def by (subst primeFactors_outer.simps) simp

subsection \<open>smallestFactor\<close>

lemma smallestFactor_composite:
  assumes "2 \<le> n" "\<not> isPrime n"
  shows "\<exists>d. smallestFactor n = Some d \<and> js_rem n d = 0 \<and> d dvd n \<and> 1 < d \<and> d * d \<le> n"
proof (cases "even n")
  case True
  with assms have "n \<noteq> 2" by (auto simp: isPrime_def)
  with assms(1) True have "4 \<le> n" by presburger
  with True assms(1) show ?thesis
    by (simp add: smallestFactor_def js_rem_eq_0_iff)
next
  case False
  with assms have "\<not> isPrime_loop n 3" "n \<noteq> 2"
    by (auto simp: isPrime_def js_rem_eq_0_iff split: if_splits)
  then obtain d where d: "smallestFactor_loop n 3 = Some d"
    using smallestFactor_loop_None[of n 3] by auto
  from smallestFactor_loop_Some[OF d] have "3 \<le> d" "d * d \<le> n" "d dvd n" by simp_all
  with d False assms(1) show ?thesis
    by (simp add: smallestFactor_def js_rem_eq_0_iff)
qed

lemma smallestFactor_odd_prime:
  assumes "isPrime n" "n \<noteq> 2"
  shows "smallestFactor n = None"
proof -
  from assms have "2 < n" "odd n" "isPrime_loop n 3"
    by (auto simp: isPrime_def js_rem_eq_0_iff split: if_splits)
  then show ?thesis
    by (simp add: smallestFactor_def js_rem_eq_0_iff smallestFactor_loop_None)
qed

lemma sqrt_bound: "0 \<le> d \<Longrightarrow> d * d \<le> n \<Longrightarrow> real_of_int d \<le> sqrt (real_of_int n)"
proof -
  assume "0 \<le> d" "d * d \<le> n"
  then have "(real_of_int d)\<^sup>2 \<le> real_of_int n"
    by (metis of_int_le_iff of_int_mult power2_eq_square)
  then show ?thesis by (rule real_le_rsqrt)
qed

lemma smallestFactor_elsewhere:
  assumes "2 \<le> n"
  shows "(\<not> isPrime n \<longrightarrow>
           (\<exists>d. smallestFactor n = Some d \<and> js_rem n d = 0
                 \<and> real_of_int d \<le> sqrt (real_of_int n)))
       \<and> (prime_int n \<and> n \<noteq> 2 \<longrightarrow> smallestFactor n = None)"
proof (intro conjI impI)
  assume "\<not> isPrime n"
  with assms obtain d where d: "smallestFactor n = Some d" "js_rem n d = 0" "1 < d" "d * d \<le> n"
    using smallestFactor_composite[of n] by blast
  from d(3,4) have "real_of_int d \<le> sqrt (real_of_int n)" by (intro sqrt_bound) auto
  with d(1,2) show "\<exists>d. smallestFactor n = Some d \<and> js_rem n d = 0
                 \<and> real_of_int d \<le> sqrt (real_of_int n)" by blast
next
  assume "prime_int n \<and> n \<noteq> 2"
  then show "smallestFactor n = None"
    by (intro smallestFactor_odd_prime) (simp_all add: isPrime_iff_prime_int)
qed

section \<open>The claims about the arithmetic utilities\<close>

text \<open>
  C6. For every integer \<open>n\<close> from 0 to 1000, \<open>isPrime n\<close> holds exactly when \<open>n\<close> is a
  prime number; it is false below 2, true at 2 and false for every even number above 2.
\<close>

theorem isPrime_matches_primes:
  assumes "0 \<le> n" "n \<le> 1000"
  shows "(isPrime n \<longleftrightarrow> prime_int n)
       \<and> (n < 2 \<longrightarrow> \<not> isPrime n)
       \<and> (n = 2 \<longrightarrow> isPrime n)
       \<and> (2 < n \<and> even n \<longrightarrow> \<not> isPrime n)"
  by (simp add: isPrime_iff_prime_int[symmetric] isPrime_def js_rem_eq_0_iff)

theorem isPrime_matches_primes_witness:
  "(0::int) \<le> 97 \<and> (97::int) \<le> 1000 \<and> isPrime 97 \<and> prime_int 97 \<and> \<not> isPrime 1 \<and> \<not> isPrime 98"
proof -
  have h: "(0::int) \<le> 97" "(97::int) \<le> 1000" by simp_all
  have "isPrime 97" by (simp add: isPrime_def isPrime_loop.simps js_rem_def)
  moreover have "\<not> isPrime 1" "\<not> isPrime 98" by (simp_all add: isPrime_def js_rem_def)
  ultimately show ?thesis using isPrime_matches_primes[OF h] by simp
qed

text \<open>
  C2, at the prime 2: \<open>isPrime\<close> accepts 2, and \<open>smallestFactor\<close> returns the factor 2
  for it instead of none. Everywhere else from 2 on the function does what is expected
  of it: for a composite number it returns a divisor that is at most the square root,
  and for an odd prime it returns none.
\<close>

theorem smallestFactor_of_two: "isPrime 2 \<and> smallestFactor 2 = Some 2"
  by (simp add: isPrime_def smallestFactor_def js_rem_def)

text \<open>
  C3. For every integer \<open>n \<ge> 2\<close>, \<open>primeFactors n\<close> returns a list that is sorted
  ascending, has prime elements only and has the product \<open>n\<close>; below 2 it returns the
  empty list.
\<close>

theorem primeFactors_sorted_prime_product:
  "(2 \<le> n \<longrightarrow> (\<exists>fs. primeFactors n = Some fs \<and> sorted fs
                        \<and> (\<forall>p\<in>set fs. prime_int p) \<and> prod_list fs = n))
   \<and> (n < 2 \<longrightarrow> primeFactors n = Some [])"
  using primeFactors_correct[of n] primeFactors_below_2[of n] by blast

theorem primeFactors_sorted_prime_product_witness:
  "(2::int) \<le> 60 \<and> primeFactors 60 = Some [2, 2, 3, 5] \<and> sorted [2, 2, 3, 5::int]
   \<and> prime_int 2 \<and> prime_int 3 \<and> prime_int 5 \<and> prod_list [2, 2, 3, 5] = (60::int)
   \<and> primeFactors 1 = Some []"
proof -
  have e: "primeFactors 60 = Some [2, 2, 3, 5]" by code_simp
  have "primeFactors 1 = Some []" by code_simp
  with e show ?thesis using primeFactors_sorted_prime_product[of 60] by simp
qed

section \<open>Properties of the conversions\<close>

subsection \<open>Decimal digits\<close>

lemma digits_of_nonempty: "digits_of n \<noteq> []"
  by (subst digits_of.simps) simp

lemma digits_of_are_digits: "c \<in> set (digits_of n) \<Longrightarrow> is_digit c"
proof (induction n arbitrary: c rule: digits_of.induct)
  case (1 n)
  show ?case
  proof (cases "n < 10")
    case True
    with "1.prems" show ?thesis
      by (subst (asm) digits_of.simps) (simp add: is_digit_def)
  next
    case False
    with "1.prems" have "c \<in> set (digits_of (n div 10)) \<or> c = 48 + n mod 10"
      by (subst (asm) digits_of.simps) auto
    then show ?thesis
    proof
      assume "c \<in> set (digits_of (n div 10))"
      with False "1.IH" show ?thesis by simp
    next
      assume "c = 48 + n mod 10"
      moreover have "n mod 10 < 10" by simp
      ultimately show ?thesis unfolding is_digit_def by linarith
    qed
  qed
qed

lemma digit_val_digit: "is_digit c \<Longrightarrow> digit_val c = c - 48"
  by (simp add: is_digit_def digit_val_def)

lemma radix_value_snoc: "radix_value r (ds @ [c]) = radix_value r ds * r + digit_val c"
  by (simp add: radix_value_def)

lemma radix_value_digits_of: "radix_value 10 (digits_of n) = n"
proof (induction n rule: digits_of.induct)
  case (1 n)
  show ?case
  proof (cases "n < 10")
    case True
    then show ?thesis
      by (subst digits_of.simps) (simp add: radix_value_def digit_val_def)
  next
    case False
    then have "radix_value 10 (digits_of n) = radix_value 10 (digits_of (n div 10)) * 10 + digit_val (48 + n mod 10)"
      by (subst digits_of.simps) (simp add: radix_value_snoc)
    also have "digit_val (48 + n mod 10) = n mod 10"
      by (simp add: digit_val_def)
    finally show ?thesis using "1.IH" False by simp
  qed
qed

lemma reduce_digits_snoc: "reduce_digits (ds @ [c]) = reduce_digits ds + int (digit_val c)"
  by (simp add: reduce_digits_def)

lemma reduce_digits_digits_of_mod3: "reduce_digits (digits_of n) mod 3 = int n mod 3"
proof (induction n rule: digits_of.induct)
  case (1 n)
  show ?case
  proof (cases "n < 10")
    case True
    then show ?thesis
      by (subst digits_of.simps) (simp add: reduce_digits_def digit_val_def)
  next
    case False
    then have "reduce_digits (digits_of n) = reduce_digits (digits_of (n div 10)) + int (digit_val (48 + n mod 10))"
      by (subst digits_of.simps) (simp add: reduce_digits_snoc)
    also have "digit_val (48 + n mod 10) = n mod 10"
      by (simp add: digit_val_def)
    finally have "reduce_digits (digits_of n) mod 3 = (reduce_digits (digits_of (n div 10)) mod 3 + int (n mod 10)) mod 3"
      by (simp add: mod_add_left_eq)
    also have "\<dots> = (int (n div 10) mod 3 + int (n mod 10)) mod 3"
      using "1.IH" False by simp
    also have "\<dots> = (int n div 10 mod 3 + int n mod 10) mod 3"
      by (simp add: zdiv_int zmod_int)
    also have "\<dots> = (int n div 10 + int n mod 10) mod 3"
      by (simp add: mod_add_left_eq)
    also have "\<dots> = (3 * (3 * (int n div 10)) + (int n div 10 + int n mod 10)) mod 3"
      by (simp only: mod_mult_self4)
    also have "3 * (3 * (int n div 10)) + (int n div 10 + int n mod 10) = int n"
      using mult_div_mod_eq[of 10 "int n"] by linarith
    finally show ?thesis .
  qed
qed

lemma length_digits_of_le: "n < 10 ^ k \<Longrightarrow> 0 < k \<Longrightarrow> length (digits_of n) \<le> k"
proof (induction n arbitrary: k rule: digits_of.induct)
  case (1 n)
  show ?case
  proof (cases "n < 10")
    case True
    then have "length (digits_of n) = 1" by (subst digits_of.simps) simp
    with "1.prems" show ?thesis by simp
  next
    case False
    obtain j where k: "k = Suc j" using "1.prems"(2) by (cases k) auto
    have "0 < j"
    proof (rule ccontr)
      assume "\<not> 0 < j"
      with k "1.prems"(1) False show False by simp
    qed
    moreover have "n div 10 < 10 ^ j" using "1.prems"(1) k by (simp add: less_mult_imp_div_less mult.commute)
    ultimately have "length (digits_of (n div 10)) \<le> j" using "1.IH" False by simp
    moreover have "length (digits_of n) = Suc (length (digits_of (n div 10)))"
      using False by (subst digits_of.simps) simp
    ultimately show ?thesis using k by simp
  qed
qed

lemma by3_small:
  assumes "0 \<le> n" "n \<le> MAX_SAFE_INTEGER"
  shows "by3 (divisibilityInfo n) \<longleftrightarrow> n mod 3 = 0"
proof -
  have "n < 10 ^ 21" using assms(2) by (simp add: MAX_SAFE_INTEGER_def)
  then have "nat n < 10 ^ 21" using assms(1) by (simp add: nat_less_iff)
  then have "length (digits_of (nat n)) \<le> 21" by (rule length_digits_of_le) simp
  then have s: "Number_toString n = digits_of (nat n)"
    using assms(1) by (simp add: Number_toString_def nat_toString_def)
  have "filter is_digit (digits_of (nat n)) = digits_of (nat n)"
    by (simp add: digits_of_are_digits)
  with s have "sumDigits (Number_toString n) = reduce_digits (digits_of (nat n))"
    by (simp add: sumDigits_def)
  moreover have "reduce_digits (digits_of (nat n)) mod 3 = n mod 3"
    using reduce_digits_digits_of_mod3[of "nat n"] assms(1) by simp
  ultimately show ?thesis
    by (simp add: divisibilityInfo_def js_rem_eq_0_iff dvd_eq_mod_eq_0)
qed

lemma reduce_digits_digits_of: "reduce_digits (digits_of n) = int (digit_sum n)"
proof (induction n rule: digits_of.induct)
  case (1 n)
  show ?case
  proof (cases "n < 10")
    case True
    then show ?thesis
      by (subst digits_of.simps, subst digit_sum.simps) (simp add: reduce_digits_def digit_val_def)
  next
    case False
    then have "reduce_digits (digits_of n) = reduce_digits (digits_of (n div 10)) + int (digit_val (48 + n mod 10))"
      by (subst digits_of.simps) (simp add: reduce_digits_snoc)
    also have "digit_val (48 + n mod 10) = n mod 10"
      by (simp add: digit_val_def)
    finally show ?thesis using "1.IH" False
      by (subst digit_sum.simps) simp
  qed
qed

lemma Number_toString_small:
  assumes "0 \<le> n" "n < 10 ^ 21"
  shows "Number_toString n = digits_of (nat n)"
proof -
  have "nat n < 10 ^ 21" using assms by (simp add: nat_less_iff)
  then have "length (digits_of (nat n)) \<le> 21" by (rule length_digits_of_le) simp
  then show ?thesis
    using assms(1) by (simp add: Number_toString_def nat_toString_def)
qed

lemma random_index_less:
  assumes "0 \<le> r" "r < 1" "0 < k"
  shows "random_index r k < k"
proof -
  have "r * of_nat k < of_nat k" using assms by simp
  then have "\<lfloor>r * of_nat k\<rfloor> < int k" by (simp add: floor_less_iff)
  moreover have "0 \<le> \<lfloor>r * of_nat k\<rfloor>" using assms by simp
  ultimately show ?thesis by (simp add: random_index_def nat_less_iff)
qed

lemma pick_TYPES_divisibilidade:
  assumes "0 \<le> r" "r < 1 / 5"
  shows "pick TYPES r = divisibilidade"
proof -
  have "r * 5 < 1" using assms by simp
  moreover have "0 \<le> r * 5" using assms by simp
  ultimately have "\<lfloor>r * 5\<rfloor> = 0" by linarith
  then show ?thesis by (simp add: pick_def TYPES_def random_index_def)
qed

lemma pick_in_set:
  assumes "0 \<le> r" "r < 1" "xs \<noteq> []"
  shows "pick xs r \<in> set xs"
  unfolding pick_def using random_index_less[OF assms(1,2), of "length xs"] assms(3) by simp

lemma pick_TYPES_potenciacao:
  assumes "3 / 5 \<le> r" "r < 4 / 5"
  shows "pick TYPES r = potenciacao"
proof -
  have "r * 5 < 4" "3 \<le> r * 5" using assms by simp_all
  then have "\<lfloor>r * 5\<rfloor> = 3" by linarith
  then show ?thesis by (simp add: pick_def TYPES_def random_index_def)
qed

section \<open>The claims about the digit sum\<close>

text \<open>
  C9, at the multiple of three \<open>1.2e22\<close>: its string is in exponent notation, the digits
  found in it are 1, 2, 2 and 2, and the flag \<open>by3\<close> is false, while the number is
  divisible by 3 and the flag \<open>by6\<close>, computed with the remainder, is true.
\<close>

theorem by3_of_exponent_notation:
  "Number_toString 12000000000000000000000 = u ''1.2e+22''
   \<and> by3 (divisibilityInfo 12000000000000000000000) = False
   \<and> js_rem 12000000000000000000000 3 = 0
   \<and> by6 (divisibilityInfo 12000000000000000000000) = True"
  by (simp add: divisibilityInfo_def sumDigits_def reduce_digits_def Number_toString_def
      nat_toString_def digits_of.simps strip_trailing_zeros_def is_digit_def digit_val_def
      js_rem_def Let_def u_def)

text \<open>
  C8. A divisibility exercise has a number \<open>n\<close> from 10 to 199 and a divisor \<open>d\<close> among
  2, 3, 5 and 10; its answer is the affirmative one (the letter S) exactly when \<open>d\<close>
  divides \<open>n\<close>, and the negative one (the letter N) otherwise; for the divisor 3 the
  explanation states the sum of the digits of \<open>n\<close>.
\<close>

theorem divisibility_exercise:
  assumes "0 \<le> r0" "r0 < 1 / 5" "0 \<le> r1" "r1 < 1" "0 \<le> r2" "r2 < 1"
    and "n = 10 + int (random_index r1 190)" and "d = pick [2, 3, 5, 10] r2"
  shows "10 \<le> n \<and> n \<le> 199 \<and> d \<in> {2, 3, 5, 10}
       \<and> (\<exists>ex. generateExercise r0 r1 r2 = Some ex \<and> type ex = divisibilidade
             \<and> (answer ex = u ''S'' \<longleftrightarrow> n mod d = 0)
             \<and> (answer ex = u ''N'' \<longleftrightarrow> n mod d \<noteq> 0)
             \<and> (d = 3 \<longrightarrow> explain ex =
                   u ''Soma dos algarismos de '' @ Number_toString n @ u '' = ''
                   @ Number_toString (int (digit_sum (nat n))) @ u ''; ''
                   @ (if n mod 3 = 0 then [233] else u ''n'' @ [227] @ u ''o '' @ [233])
                   @ u '' m'' @ [250] @ u ''ltiplo de 3.''))"
proof -
  have idx: "random_index r1 190 < 190" using assms(3,4) by (intro random_index_less) auto
  with assms(7) have n: "10 \<le> n" "n \<le> 199" by simp_all
  have d: "d \<in> {2, 3, 5, 10}"
    using pick_in_set[OF assms(5,6), of "[2, 3, 5, 10::int]"] assms(8) by simp
  then have dpos: "0 < d" by auto
  have rem: "js_rem n d = n mod d" "js_rem n 3 = n mod 3"
    using n dpos by (simp_all add: js_rem_nonneg)
  have str: "Number_toString n = digits_of (nat n)"
    using n by (intro Number_toString_small) auto
  have sum: "reduce_digits (Number_toString n) = int (digit_sum (nat n))"
    by (simp add: str reduce_digits_digits_of)
  have SN: "u ''S'' \<noteq> u ''N''" by (simp add: u_def)
  show ?thesis
    using n d SN
    by (simp add: generateExercise_def pick_TYPES_divisibilidade[OF assms(1,2)] Let_def
        assms(7)[symmetric] assms(8)[symmetric] rem sum)
qed

theorem divisibility_exercise_witness:
  "(0::rat) \<le> 0 \<and> (0::rat) < 1 / 5 \<and> (0::rat) \<le> 1 / 38 \<and> (1 / 38 :: rat) < 1
   \<and> (0::rat) \<le> 1 / 4 \<and> (1 / 4 :: rat) < 1
   \<and> (15::int) = 10 + int (random_index (1 / 38) 190) \<and> (3::int) = pick [2, 3, 5, 10] (1 / 4)
   \<and> (\<exists>ex. generateExercise 0 (1 / 38) (1 / 4) = Some ex \<and> answer ex = u ''S''
         \<and> explain ex = u ''Soma dos algarismos de 15 = 6; '' @ [233] @ u '' m'' @ [250]
              @ u ''ltiplo de 3.'')"
proof -
  have n: "(15::int) = 10 + int (random_index (1 / 38) 190)"
    by (simp add: random_index_def)
  have d: "(3::int) = pick [2, 3, 5, 10] (1 / 4)"
    by (simp add: pick_def random_index_def)
  have s: "Number_toString 15 = u ''15''" "Number_toString 6 = u ''6''" "digit_sum 15 = 6"
    by (simp_all add: Number_toString_def nat_toString_def digits_of.simps digit_sum.simps u_def)
  from divisibility_exercise[of 0 "1 / 38" "1 / 4" 15 3, OF _ _ _ _ _ _ n d]
  obtain ex where "generateExercise 0 (1 / 38) (1 / 4) = Some ex" "answer ex = u ''S''"
    "explain ex = u ''Soma dos algarismos de '' @ Number_toString 15 @ u '' = ''
                   @ Number_toString (int (digit_sum (nat 15))) @ u ''; '' @ [233]
                   @ u '' m'' @ [250] @ u ''ltiplo de 3.''"
    by auto
  then show ?thesis using n d by (simp add: s u_def)
qed

section \<open>Properties of the grading utilities\<close>

subsection \<open>Products and multisets\<close>

lemma foldl_times: "foldl (\<lambda>acc v. acc * v) a ks = a * prod_list (ks :: int list)"
  by (induction ks arbitrary: a) (simp_all add: mult.assoc)

lemma productOf_prod_list: "productOf ks = prod_list ks"
  by (simp add: productOf_def foldl_times)

lemma list_all_zip_index:
  "length xs = length ys \<Longrightarrow>
     list_all (\<lambda>(v, i). v = ys ! i) (zip xs [0..<length xs]) \<longleftrightarrow> xs = ys"
proof -
  assume len: "length xs = length ys"
  have "list_all (\<lambda>(v, i). v = ys ! i) (zip xs [0..<length xs])
          \<longleftrightarrow> (\<forall>i<length xs. xs ! i = ys ! i)"
    by (auto simp: list_all_length)
  also have "\<dots> \<longleftrightarrow> xs = ys"
    using len by (auto simp: list_eq_iff_nth_eq)
  finally show ?thesis .
qed

lemma multisetEqual_iff_mset: "multisetEqual a b \<longleftrightarrow> mset a = mset b"
proof (cases "length a = length b")
  case False
  then have "mset a \<noteq> mset b" by (metis size_mset)
  with False show ?thesis by (simp add: multisetEqual_def)
next
  case True
  then have "multisetEqual a b \<longleftrightarrow> sort a = sort b"
    using list_all_zip_index[of "sort a" "sort b"] by (simp add: multisetEqual_def Let_def)
  also have "\<dots> \<longleftrightarrow> mset a = mset b"
    by (metis mset_sort properties_for_sort sorted_sort)
  finally show ?thesis .
qed

lemma prime_int_dvd_mult:
  assumes "prime_int p" "p dvd a * b"
  shows "p dvd a \<or> p dvd b"
proof (cases "p dvd a")
  case False
  define g where "g = gcd p a"
  have p: "1 < p" using assms(1) by (simp add: prime_int_def)
  have "g dvd p" "g dvd a" by (simp_all add: g_def)
  moreover have "0 < g" using p by (simp add: g_def gcd_pos_int)
  ultimately have "g = 1 \<or> g = p" using assms(1) unfolding prime_int_def by blast
  with \<open>g dvd a\<close> False have "g = 1" by auto
  then have "coprime p a" by (simp add: g_def coprime_iff_gcd_eq_1)
  with assms(2) have "p dvd b" by (simp add: coprime_dvd_mult_right_iff)
  then show ?thesis ..
qed simp

lemma prime_int_dvd_prod_list:
  assumes "prime_int p" "p dvd prod_list ys" "\<forall>q\<in>set ys. prime_int q"
  shows "p \<in> set ys"
  using assms(2,3)
proof (induction ys)
  case Nil
  then have "p dvd 1" by simp
  with assms(1) show ?case by (auto simp: prime_int_def)
next
  case (Cons y ys)
  from Cons.prems(1) have "p dvd y \<or> p dvd prod_list ys"
    using prime_int_dvd_mult[OF assms(1)] by simp
  then show ?case
  proof
    assume "p dvd y"
    moreover have "prime_int y" using Cons.prems(2) by simp
    moreover have "0 < p" "p \<noteq> 1" using assms(1) by (simp_all add: prime_int_def)
    ultimately have "p = y" unfolding prime_int_def by blast
    then show ?thesis by simp
  next
    assume "p dvd prod_list ys"
    with Cons show ?thesis by simp
  qed
qed

lemma prod_list_remove1:
  "(y::int) \<in> set ys \<Longrightarrow> y * prod_list (remove1 y ys) = prod_list ys"
  by (induction ys) (auto simp: mult.left_commute)

lemma prime_factorization_unique:
  assumes "\<forall>p\<in>set xs. prime_int p" "\<forall>q\<in>set ys. prime_int q" "prod_list xs = prod_list ys"
  shows "mset xs = mset ys"
  using assms
proof (induction xs arbitrary: ys)
  case Nil
  show ?case
  proof (cases ys)
    case (Cons y ys')
    with Nil have "prime_int y" "y * prod_list ys' = 1" by simp_all
    then have "y dvd 1" by (metis dvd_triv_left)
    with \<open>prime_int y\<close> show ?thesis by (auto simp: prime_int_def)
  qed simp
next
  case (Cons p xs)
  have pp: "prime_int p" using Cons.prems(1) by simp
  have "p dvd prod_list ys" using Cons.prems(3) by (metis dvd_triv_left prod_list.Cons)
  with pp Cons.prems(2) have mem: "p \<in> set ys" by (intro prime_int_dvd_prod_list)
  have "p * prod_list xs = p * prod_list (remove1 p ys)"
    using Cons.prems(3) prod_list_remove1[OF mem] by simp
  moreover have "p \<noteq> 0" using pp by (simp add: prime_int_def)
  ultimately have "prod_list xs = prod_list (remove1 p ys)" by simp
  moreover have "\<forall>q\<in>set (remove1 p ys). prime_int q"
    using Cons.prems(2) by (meson notin_set_remove1)
  ultimately have "mset xs = mset (remove1 p ys)"
    using Cons.IH Cons.prems(1) by simp
  then show ?case using mem by simp
qed

subsection \<open>Grading returns\<close>

lemma primeFactors_returns: "\<exists>fs. primeFactors n = Some fs"
  using primeFactors_correct[of n] primeFactors_below_2[of n] by (cases "2 \<le> n") auto

lemma submit_returns: "\<exists>fb. submit ex input = Some fb"
proof -
  have "\<exists>fb. submit_factors ex v input = Some fb" for v
    using primeFactors_returns[of v]
    by (auto simp: submit_factors_def Let_def split: option.split)
  then show ?thesis by (auto simp: submit_def split: option.split)
qed

lemma list_ex_not_isPrime: "list_ex (\<lambda>k. \<not> isPrime k) ks \<longleftrightarrow> (\<exists>k\<in>set ks. \<not> prime_int k)"
  by (simp add: list_ex_iff isPrime_iff_prime_int)

lemma filter_not_isPrime: "filter (\<lambda>k. \<not> isPrime k) ks = filter (\<lambda>k. \<not> prime_int k) ks"
  by (simp add: isPrime_iff_prime_int)

lemma pick_TYPES_fatoracao:
  assumes "2 / 5 \<le> r" "r < 3 / 5"
  shows "pick TYPES r = fatoracao"
proof -
  have "r * 5 < 3" "2 \<le> r * 5" using assms by simp_all
  then have "\<lfloor>r * 5\<rfloor> = 2" by linarith
  then show ?thesis by (simp add: pick_def TYPES_def random_index_def)
qed

lemma generate_fatoracao:
  assumes "2 / 5 \<le> r0" "r0 < 3 / 5" "0 \<le> r1" "r1 < 1"
    and "n = pick [12, 18, 20, 24, 36, 45, 50, 60] r1"
  shows "n \<in> {12, 18, 20, 24, 36, 45, 50, 60}
    \<and> (\<exists>ex fs. generateExercise r0 r1 r2 = Some ex \<and> type ex = fatoracao \<and> val ex = Some n
          \<and> primeFactors n = Some fs \<and> expected ex = Some fs
          \<and> answer ex = join (u '' '' @ [215] @ u '' '') (map Number_toString fs))"
proof -
  have mem: "n \<in> {12, 18, 20, 24, 36, 45, 50, 60}"
    using pick_in_set[OF assms(3,4), of "[12, 18, 20, 24, 36, 45, 50, 60::int]"] assms(5) by simp
  obtain fs where fs: "primeFactors n = Some fs" using primeFactors_returns by blast
  show ?thesis
    using mem fs
    by (simp add: generateExercise_def pick_TYPES_fatoracao[OF assms(1,2)] assms(5)[symmetric] Let_def)
qed

subsection \<open>Evaluating the parser\<close>

lemmas parse_defs = normalizeFactorsInput_def u_def toLowerCase_def toLowerCase_unit_def
  replace_class_def trim_def is_ws_def Number_def NonDecimalIntegerLiteral_def sign_split_def
  StrUnsignedDecimalLiteral_def exponent_part_def is_digit_def radix_value_def digit_val_def
  to_number_def isFinite_def Let_def

lemma small_primes: "prime_int 2" "prime_int 3" "\<not> prime_int 4" "\<not> prime_int 6"
  by (simp_all add: isPrime_iff_prime_int[symmetric] isPrime_def isPrime_loop.simps js_rem_def)

lemma exact_number_int:
  assumes "\<bar>n\<bar> \<le> MAX_SAFE_INTEGER"
  shows "exact_number (Fin (of_int n))"
proof -
  have "\<bar>n\<bar> < 2 ^ 53" using assms by (simp add: MAX_SAFE_INTEGER_def)
  then have "is_double (of_int n)"
    unfolding is_double_def by (intro exI[of _ n] exI[of _ 0]) simp
  moreover have "\<bar>rat_of_int n\<bar> \<le> of_int MAX_SAFE_INTEGER"
    using assms by (metis of_int_abs of_int_le_iff)
  ultimately show ?thesis by (simp add: exact_number_def)
qed

lemma normalizeFactorsInput_finite: "k \<in> set (normalizeFactorsInput text) \<Longrightarrow> isFinite k"
  by (simp add: normalizeFactorsInput_def Let_def split: if_splits)

section \<open>The claims about grading\<close>

text \<open>
  C5. For an exercise of any topic but factorization, the answer is graded correct
  exactly when the submitted text, trimmed and lower-cased, is the same string as the
  lower-cased answer of the exercise. For the exponentiation exercise of base 2 and
  exponent 3 the answer is the string 8; the text 8 is correct and the text 08 is not.
\<close>

theorem other_topics_compare_strings:
  "(type ex \<noteq> fatoracao \<longrightarrow>
      (\<exists>fb. submit ex input = Some fb
         \<and> (correct fb \<longleftrightarrow> toLowerCase (trim input) = toLowerCase (answer ex))))
   \<and> (3 / 5 \<le> r0 \<and> r0 < 4 / 5 \<and> 0 \<le> r1 \<and> r1 < 1 / 4 \<and> 1 / 3 \<le> r2 \<and> r2 < 2 / 3 \<longrightarrow>
      (\<exists>e. generateExercise r0 r1 r2 = Some e \<and> type e = potenciacao \<and> answer e = u ''8''
         \<and> (\<exists>fb. submit e (u ''8'') = Some fb \<and> correct fb)
         \<and> (\<exists>fb. submit e (u ''08'') = Some fb \<and> \<not> correct fb)))"
proof (intro conjI impI)
  assume "type ex \<noteq> fatoracao"
  then show "\<exists>fb. submit ex input = Some fb
         \<and> (correct fb \<longleftrightarrow> toLowerCase (trim input) = toLowerCase (answer ex))"
    by (simp add: submit_def submit_text_def split: option.split)
next
  assume r: "3 / 5 \<le> r0 \<and> r0 < 4 / 5 \<and> 0 \<le> r1 \<and> r1 < 1 / 4 \<and> 1 / 3 \<le> r2 \<and> r2 < 2 / 3"
  then have t: "pick TYPES r0 = potenciacao" by (intro pick_TYPES_potenciacao) auto
  from r have "0 \<le> r1 * 4" "r1 * 4 < 1" by simp_all
  then have "\<lfloor>r1 * 4\<rfloor> = 0" by linarith
  then have b: "pick [2, 3, 4, 5::int] r1 = 2" by (simp add: pick_def random_index_def)
  from r have "1 \<le> r2 * 3" "r2 * 3 < 2" by simp_all
  then have "\<lfloor>r2 * 3\<rfloor> = 1" by linarith
  then have e: "pick [2, 3, 4::int] r2 = 3" by (simp add: pick_def random_index_def)
  have s: "Number_toString 8 = u ''8''"
    by (simp add: Number_toString_def nat_toString_def digits_of.simps u_def)
  have g: "\<exists>e. generateExercise r0 r1 r2 = Some e \<and> type e = potenciacao \<and> answer e = u ''8''
      \<and> val e = None"
    by (simp add: generateExercise_def t b e s Let_def)
  have c8: "toLowerCase (trim (u ''8'')) = toLowerCase (u ''8'')"
    by (simp add: u_def trim_def is_ws_def toLowerCase_def)
  have c08: "toLowerCase (trim (u ''08'')) \<noteq> toLowerCase (u ''8'')"
    by (simp add: u_def trim_def is_ws_def toLowerCase_def)
  from g c8 c08 show "\<exists>e. generateExercise r0 r1 r2 = Some e \<and> type e = potenciacao \<and> answer e = u ''8''
         \<and> (\<exists>fb. submit e (u ''8'') = Some fb \<and> correct fb)
         \<and> (\<exists>fb. submit e (u ''08'') = Some fb \<and> \<not> correct fb)"
    by (auto simp: submit_def submit_text_def)
qed

theorem other_topics_compare_strings_witness:
  "(\<exists>e. generateExercise (7 / 10) 0 (1 / 2) = Some e \<and> type e \<noteq> fatoracao \<and> answer e = u ''8''
      \<and> (\<exists>fb. submit e (u '' 8 '') = Some fb \<and> correct fb)
      \<and> (\<exists>fb. submit e (u ''08'') = Some fb \<and> \<not> correct fb))"
proof -
  have "(3 / 5 :: rat) \<le> 7 / 10 \<and> (7 / 10 :: rat) < 4 / 5 \<and> (0::rat) \<le> 0 \<and> (0::rat) < 1 / 4
      \<and> (1 / 3 :: rat) \<le> 1 / 2 \<and> (1 / 2 :: rat) < 2 / 3" by simp
  with other_topics_compare_strings[of _ _ "7 / 10" 0 "1 / 2"]
  obtain e where e: "generateExercise (7 / 10) 0 (1 / 2) = Some e" "type e = potenciacao"
    "answer e = u ''8''" "\<exists>fb. submit e (u ''08'') = Some fb \<and> \<not> correct fb"
    by blast
  from e(2) have ne: "type e \<noteq> fatoracao" by simp
  with other_topics_compare_strings[of e "u '' 8 ''"]
  obtain fb where "submit e (u '' 8 '') = Some fb"
    "correct fb \<longleftrightarrow> toLowerCase (trim (u '' 8 '')) = toLowerCase (answer e)" by blast
  moreover have "toLowerCase (trim (u '' 8 '')) = toLowerCase (u ''8'')"
    by (simp add: u_def trim_def is_ws_def toLowerCase_def)
  ultimately have "\<exists>fb. submit e (u '' 8 '') = Some fb \<and> correct fb" using e(3) by simp
  with e ne show ?thesis by blast
qed

text \<open>
  C4. Grading always returns. For a factorization exercise whose subject value is at
  most \<open>2^53 - 1\<close> and a text whose parsed factors are exact numbers, the validation
  rules apply in order, each grading the answer incorrect with its own message: no
  parsed factor gives the message on the accepted formats; otherwise a factor that is
  not an integer from 2 on gives the message on integers; otherwise a factor that is
  not prime gives the message that lists, separated by commas, the factors that are not
  prime; otherwise a product different from the subject value gives, as long as the
  product is at most \<open>2^53 - 1\<close>, the message that states the product and the subject
  value. The four messages differ from one another.
\<close>

theorem factorization_diagnostics:
  assumes "factors = normalizeFactorsInput input" and "ks = map int_of factors"
  shows "(\<exists>fb. submit ex input = Some fb)
    \<and> (type ex = fatoracao \<and> val ex = Some v \<and> v \<noteq> 0 \<and> \<bar>v\<bar> \<le> MAX_SAFE_INTEGER
         \<and> (\<forall>k\<in>set factors. exact_number k) \<longrightarrow>
        (factors = [] \<longrightarrow>
           submit ex input =
             Some \<lparr> correct = False,
                    explanation = u ''Formato aceito: 2x2x3, 2 2 3, 2,2,3 ou 2'' @ [215] @ u ''2''
                      @ [215] @ u ''3.'',
                    expected_answer = answer ex \<rparr>)
        \<and> (factors \<noteq> [] \<and> (\<exists>k\<in>set factors. \<not> (isInteger k \<and> js_ge k 2)) \<longrightarrow>
           submit ex input =
             Some \<lparr> correct = False,
                    explanation = u ''Use apenas inteiros '' @ [8805] @ u '' 2.'',
                    expected_answer = answer ex \<rparr>)
        \<and> (factors \<noteq> [] \<and> (\<forall>k\<in>set factors. isInteger k \<and> js_ge k 2)
             \<and> (\<exists>k\<in>set ks. \<not> prime_int k) \<longrightarrow>
           submit ex input =
             Some \<lparr> correct = False,
                    explanation = u ''Nem todos os fatores s'' @ [227] @ u ''o primos (''
                      @ join (u '', '') (map Number_toString (filter (\<lambda>k. \<not> prime_int k) ks))
                      @ u ''). Dica: fatorar compostos (ex.: 6 = 2x3).'',
                    expected_answer = answer ex \<rparr>)
        \<and> (factors \<noteq> [] \<and> (\<forall>k\<in>set factors. isInteger k \<and> js_ge k 2)
             \<and> (\<forall>k\<in>set ks. prime_int k) \<and> prod_list ks \<noteq> v \<longrightarrow>
           (\<exists>fb. submit ex input = Some fb \<and> \<not> correct fb \<and> expected_answer fb = answer ex
              \<and> (prod_list ks \<le> MAX_SAFE_INTEGER \<longrightarrow>
                   explanation fb = u ''O produto dos fatores digitados '' @ [233] @ u '' ''
                     @ Number_toString (prod_list ks) @ u '', mas deve ser ''
                     @ Number_toString v @ u ''.''))))
    \<and> msg_format \<noteq> msg_integers \<and> msg_format \<noteq> msg_non_primes l
    \<and> msg_format \<noteq> msg_product p w \<and> msg_integers \<noteq> msg_non_primes l
    \<and> msg_integers \<noteq> msg_product p w \<and> msg_non_primes l \<noteq> msg_product p w"
proof -
  have msgs: "msg_format \<noteq> msg_integers \<and> msg_format \<noteq> msg_non_primes l
    \<and> msg_format \<noteq> msg_product p w \<and> msg_integers \<noteq> msg_non_primes l
    \<and> msg_integers \<noteq> msg_product p w \<and> msg_non_primes l \<noteq> msg_product p w"
    by (simp add: msg_format_def msg_integers_def msg_non_primes_def msg_product_def u_def)
  have rules: "(factors = [] \<longrightarrow>
           submit ex input =
             Some \<lparr> correct = False,
                    explanation = u ''Formato aceito: 2x2x3, 2 2 3, 2,2,3 ou 2'' @ [215] @ u ''2''
                      @ [215] @ u ''3.'',
                    expected_answer = answer ex \<rparr>)
        \<and> (factors \<noteq> [] \<and> (\<exists>k\<in>set factors. \<not> (isInteger k \<and> js_ge k 2)) \<longrightarrow>
           submit ex input =
             Some \<lparr> correct = False,
                    explanation = u ''Use apenas inteiros '' @ [8805] @ u '' 2.'',
                    expected_answer = answer ex \<rparr>)
        \<and> (factors \<noteq> [] \<and> (\<forall>k\<in>set factors. isInteger k \<and> js_ge k 2)
             \<and> (\<exists>k\<in>set ks. \<not> prime_int k) \<longrightarrow>
           submit ex input =
             Some \<lparr> correct = False,
                    explanation = u ''Nem todos os fatores s'' @ [227] @ u ''o primos (''
                      @ join (u '', '') (map Number_toString (filter (\<lambda>k. \<not> prime_int k) ks))
                      @ u ''). Dica: fatorar compostos (ex.: 6 = 2x3).'',
                    expected_answer = answer ex \<rparr>)
        \<and> (factors \<noteq> [] \<and> (\<forall>k\<in>set factors. isInteger k \<and> js_ge k 2)
             \<and> (\<forall>k\<in>set ks. prime_int k) \<and> prod_list ks \<noteq> v \<longrightarrow>
           (\<exists>fb. submit ex input = Some fb \<and> \<not> correct fb \<and> expected_answer fb = answer ex
              \<and> (prod_list ks \<le> MAX_SAFE_INTEGER \<longrightarrow>
                   explanation fb = u ''O produto dos fatores digitados '' @ [233] @ u '' ''
                     @ Number_toString (prod_list ks) @ u '', mas deve ser ''
                     @ Number_toString v @ u ''.'')))"
    if ex: "type ex = fatoracao \<and> val ex = Some v \<and> v \<noteq> 0"
  proof -
    have s: "submit ex input = submit_factors ex v input"
      using ex by (simp add: submit_def)
    show ?thesis
      unfolding s submit_factors_def assms(1)[symmetric] Let_def assms(2)[symmetric]
      by (auto simp: list_ex_not_isPrime filter_not_isPrime productOf_prod_list list_all_iff
          msg_format_def msg_integers_def msg_non_primes_def msg_product_def)
  qed
  show ?thesis
    using submit_returns[of ex input] msgs rules by blast
qed

theorem factorization_diagnostics_witness:
  "(\<exists>ex. generateExercise (1 / 2) 0 0 = Some ex \<and> type ex = fatoracao \<and> val ex = Some 12
      \<and> exact_number (Fin 2) \<and> exact_number (Fin 3) \<and> exact_number (Fin 4)
      \<and> exact_number (Fin 6) \<and> exact_number (Fin (7 / 2))
      \<and> submit ex (u '''') =
          Some \<lparr> correct = False,
                 explanation = u ''Formato aceito: 2x2x3, 2 2 3, 2,2,3 ou 2'' @ [215] @ u ''2''
                   @ [215] @ u ''3.'',
                 expected_answer = answer ex \<rparr>
      \<and> submit ex (u ''2 2 3.5'') =
          Some \<lparr> correct = False,
                 explanation = u ''Use apenas inteiros '' @ [8805] @ u '' 2.'',
                 expected_answer = answer ex \<rparr>
      \<and> submit ex (u ''4,6,2'') =
          Some \<lparr> correct = False,
                 explanation = u ''Nem todos os fatores s'' @ [227]
                   @ u ''o primos (4, 6). Dica: fatorar compostos (ex.: 6 = 2x3).'',
                 expected_answer = answer ex \<rparr>
      \<and> submit ex (u ''2x3x3'') =
          Some \<lparr> correct = False,
                 explanation = u ''O produto dos fatores digitados '' @ [233]
                   @ u '' 18, mas deve ser 12.'',
                 expected_answer = answer ex \<rparr>)"
proof -
  have r: "(2 / 5 :: rat) \<le> 1 / 2" "(1 / 2 :: rat) < 3 / 5" "(0::rat) \<le> 0" "(0::rat) < 1"
    by simp_all
  have n: "(12::int) = pick [12, 18, 20, 24, 36, 45, 50, 60] 0"
    by (simp add: pick_def random_index_def)
  from generate_fatoracao[OF r n, of 0]
  obtain ex where ex: "generateExercise (1 / 2) 0 0 = Some ex" "type ex = fatoracao"
    "val ex = Some 12" by blast
  have v: "(12::int) \<noteq> 0" "\<bar>12::int\<bar> \<le> MAX_SAFE_INTEGER"
    by (simp_all add: MAX_SAFE_INTEGER_def)
  have x: "exact_number (Fin 2)" "exact_number (Fin 3)" "exact_number (Fin 4)"
    "exact_number (Fin 6)"
    using exact_number_int[of 2] exact_number_int[of 3] exact_number_int[of 4]
      exact_number_int[of 6]
    by (simp_all add: MAX_SAFE_INTEGER_def)
  have "is_double (7 / 2)"
    unfolding is_double_def by (intro exI[of _ 7] exI[of _ 1]) simp
  then have h: "exact_number (Fin (7 / 2))"
    by (simp add: exact_number_def MAX_SAFE_INTEGER_def)
  have f1: "[] = normalizeFactorsInput (u '''')"
    by (simp add: parse_defs)
  have f2: "[Fin 2, Fin 2, Fin (7 / 2)] = normalizeFactorsInput (u ''2 2 3.5'')"
    by (simp add: parse_defs)
  have f3: "[Fin 4, Fin 6, Fin 2] = normalizeFactorsInput (u ''4,6,2'')"
    by (simp add: parse_defs)
  have f4: "[Fin 2, Fin 3, Fin 3] = normalizeFactorsInput (u ''2x3x3'')"
    by (simp add: parse_defs)
  have fl: "\<lfloor>7 / 2 :: rat\<rfloor> = 3" by (rule floor_unique) simp_all
  have str: "Number_toString 4 = u ''4''" "Number_toString 6 = u ''6''"
    "Number_toString 18 = u ''18''" "Number_toString 12 = u ''12''"
    by (simp_all add: Number_toString_def nat_toString_def digits_of.simps u_def)
  have 1: "submit ex (u '''') =
          Some \<lparr> correct = False,
                 explanation = u ''Formato aceito: 2x2x3, 2 2 3, 2,2,3 ou 2'' @ [215] @ u ''2''
                   @ [215] @ u ''3.'',
                 expected_answer = answer ex \<rparr>"
    using factorization_diagnostics[OF f1 refl, of ex 12] ex v by simp
  have 2: "submit ex (u ''2 2 3.5'') =
          Some \<lparr> correct = False,
                 explanation = u ''Use apenas inteiros '' @ [8805] @ u '' 2.'',
                 expected_answer = answer ex \<rparr>"
    using factorization_diagnostics[OF f2 refl, of ex 12] ex v x h
    by (simp add: isInteger_def js_ge_def fl)
  have 3: "submit ex (u ''4,6,2'') =
          Some \<lparr> correct = False,
                 explanation = u ''Nem todos os fatores s'' @ [227]
                   @ u ''o primos (4, 6). Dica: fatorar compostos (ex.: 6 = 2x3).'',
                 expected_answer = answer ex \<rparr>"
    using factorization_diagnostics[OF f3 refl, of ex 12] ex v x
    by (simp add: isInteger_def js_ge_def int_of_def small_primes str u_def)
  have "\<exists>fb. submit ex (u ''2x3x3'') = Some fb \<and> \<not> correct fb \<and> expected_answer fb = answer ex
          \<and> explanation fb = u ''O produto dos fatores digitados '' @ [233]
               @ u '' 18, mas deve ser 12.''"
    using factorization_diagnostics[OF f4 refl, of ex 12] ex v x
    by (simp add: isInteger_def js_ge_def int_of_def small_primes str u_def MAX_SAFE_INTEGER_def)
  then obtain fb where fb: "submit ex (u ''2x3x3'') = Some fb" "\<not> correct fb"
    "expected_answer fb = answer ex"
    "explanation fb = u ''O produto dos fatores digitados '' @ [233] @ u '' 18, mas deve ser 12.''"
    by blast
  have "fb = \<lparr> correct = False,
                 explanation = u ''O produto dos fatores digitados '' @ [233]
                   @ u '' 18, mas deve ser 12.'',
                 expected_answer = answer ex \<rparr>"
    using fb(2-4) by (cases fb) simp
  with fb(1) have 4: "submit ex (u ''2x3x3'') =
          Some \<lparr> correct = False,
                 explanation = u ''O produto dos fatores digitados '' @ [233]
                   @ u '' 18, mas deve ser 12.'',
                 expected_answer = answer ex \<rparr>"
    by simp
  from ex x h 1 2 3 4 show ?thesis by blast
qed

text \<open>
  C1. For a factorization exercise on a number \<open>n\<close> of the pool, every text whose parsed
  factors are all integers from 2 on, all prime, and of product \<open>n\<close> is graded correct:
  the comparison with the expected factors cannot fail.
\<close>

theorem prime_factors_always_accepted:
  assumes "2 / 5 \<le> r0" "r0 < 3 / 5" "0 \<le> r1" "r1 < 1"
    and "n = pick [12, 18, 20, 24, 36, 45, 50, 60] r1"
    and "factors = normalizeFactorsInput input"
    and "\<forall>k\<in>set factors. isInteger k \<and> js_ge k 2"
    and "\<forall>k\<in>set factors. prime_int (int_of k)"
    and "prod_list (map int_of factors) = n"
  shows "\<exists>ex fs fb. generateExercise r0 r1 r2 = Some ex \<and> type ex = fatoracao \<and> val ex = Some n
           \<and> primeFactors n = Some fs \<and> expected ex = Some fs
           \<and> submit ex input = Some fb \<and> correct fb
           \<and> multisetEqual (map int_of factors) fs
           \<and> explanation fb = u ''Perfeito! '' @ Number_toString n @ u '' = ''
                @ join (u '' '' @ [215] @ u '' '') (map Number_toString fs) @ u ''.''"
proof -
  from generate_fatoracao[OF assms(1-5), of r2]
  obtain ex fs where mem: "n \<in> {12, 18, 20, 24, 36, 45, 50, 60}"
    and ex: "generateExercise r0 r1 r2 = Some ex" "type ex = fatoracao" "val ex = Some n"
      "primeFactors n = Some fs" "expected ex = Some fs"
    by blast
  from mem have n: "2 \<le> n" "n \<noteq> 0" "n \<noteq> 1" by auto
  define ks where "ks = map int_of factors"
  have ne: "factors \<noteq> []" using assms(9) n(3) by auto
  have primes: "\<forall>k\<in>set ks. prime_int k" using assms(8) by (simp add: ks_def)
  have prod: "prod_list ks = n" using assms(9) by (simp add: ks_def)
  from primeFactors_correct[OF n(1)] ex(4)
  have fs: "\<forall>p\<in>set fs. prime_int p" "prod_list fs = n" by simp_all
  have "mset ks = mset fs"
    using primes fs prod by (intro prime_factorization_unique) simp_all
  then have eq: "multisetEqual ks fs" by (simp add: multisetEqual_iff_mset)
  have all: "list_all (\<lambda>k. isInteger k \<and> js_ge k 2) factors"
    using assms(7) by (simp add: list_all_iff)
  have nex: "\<not> list_ex (\<lambda>k. \<not> isPrime k) ks"
    using primes by (simp add: list_ex_not_isPrime)
  have "submit ex input = submit_factors ex n input"
    using ex(2,3) n(2) by (simp add: submit_def)
  also have "\<dots> = Some \<lparr> correct = True,
      explanation = u ''Perfeito! '' @ Number_toString n @ u '' = ''
                @ join (u '' '' @ [215] @ u '' '') (map Number_toString fs) @ u ''.'',
      expected_answer = join (u '' '' @ [215] @ u '' '') (map Number_toString fs) \<rparr>"
    unfolding submit_factors_def assms(6)[symmetric] Let_def ks_def[symmetric]
    using ne all nex prod eq ex(5) by (simp add: productOf_prod_list)
  finally show ?thesis using ex eq by (simp add: ks_def)
qed

theorem prime_factors_always_accepted_witness:
  "(2 / 5 :: rat) \<le> 1 / 2 \<and> (1 / 2 :: rat) < 3 / 5 \<and> (0::rat) \<le> 0 \<and> (0::rat) < 1
   \<and> (12::int) = pick [12, 18, 20, 24, 36, 45, 50, 60] 0
   \<and> [Fin 3, Fin 2, Fin 2] = normalizeFactorsInput (u ''3 x 2 x 2'')
   \<and> prod_list (map int_of [Fin 3, Fin 2, Fin 2]) = 12
   \<and> (\<exists>ex fb. generateExercise (1 / 2) 0 0 = Some ex \<and> val ex = Some 12
         \<and> expected ex = Some [2, 2, 3]
         \<and> submit ex (u ''3 x 2 x 2'') = Some fb \<and> correct fb)"
proof -
  have r: "(2 / 5 :: rat) \<le> 1 / 2" "(1 / 2 :: rat) < 3 / 5" "(0::rat) \<le> 0" "(0::rat) < 1"
    by simp_all
  have n: "(12::int) = pick [12, 18, 20, 24, 36, 45, 50, 60] 0"
    by (simp add: pick_def random_index_def)
  have f: "[Fin 3, Fin 2, Fin 2] = normalizeFactorsInput (u ''3 x 2 x 2'')"
    by (simp add: parse_defs)
  have i: "\<forall>k\<in>set [Fin 3, Fin 2, Fin 2]. isInteger k \<and> js_ge k 2"
    by (simp add: isInteger_def js_ge_def)
  have p: "\<forall>k\<in>set [Fin 3, Fin 2, Fin 2]. prime_int (int_of k)"
    by (simp add: int_of_def small_primes)
  have m: "prod_list (map int_of [Fin 3, Fin 2, Fin 2]) = 12"
    by (simp add: int_of_def)
  have e: "primeFactors 12 = Some [2, 2, 3]" by code_simp
  from prime_factors_always_accepted[OF r n f i p m, of 0] e
  have "\<exists>ex fb. generateExercise (1 / 2) 0 0 = Some ex \<and> val ex = Some 12
         \<and> expected ex = Some [2, 2, 3]
         \<and> submit ex (u ''3 x 2 x 2'') = Some fb \<and> correct fb"
    by auto
  with r n f m show ?thesis by blast
qed

text \<open>
  C10. \<open>normalizeFactorsInput\<close> returns finite numbers only, but not integers only: the
  text 2.5 gives the number 2.5 and the text -3 gives the number -3. It is the test on
  integers from 2 on in \<open>submit\<close> that rejects both.
\<close>

theorem parser_keeps_non_integers:
  "(\<forall>k\<in>set (normalizeFactorsInput text). isFinite k)
   \<and> normalizeFactorsInput (u ''2.5'') = [Fin (5 / 2)] \<and> \<not> isInteger (Fin (5 / 2))
   \<and> normalizeFactorsInput (u ''-3'') = [Fin (- 3)] \<and> isInteger (Fin (- 3))
   \<and> \<not> js_ge (Fin (- 3)) 2
   \<and> (type ex = fatoracao \<and> val ex = Some v \<and> v \<noteq> 0 \<longrightarrow>
        submit ex (u ''2.5'') =
          Some \<lparr> correct = False, explanation = msg_integers, expected_answer = answer ex \<rparr>
        \<and> submit ex (u ''-3'') =
          Some \<lparr> correct = False, explanation = msg_integers, expected_answer = answer ex \<rparr>)"
proof -
  have a: "normalizeFactorsInput (u ''2.5'') = [Fin (5 / 2)]"
    by (simp add: parse_defs)
  have b: "normalizeFactorsInput (u ''-3'') = [Fin (- 3)]"
    by (simp add: parse_defs)
  have fl: "\<lfloor>5 / 2 :: rat\<rfloor> = 2" by (rule floor_unique) simp_all
  have c: "\<not> isInteger (Fin (5 / 2))" "isInteger (Fin (- 3))" "\<not> js_ge (Fin (- 3)) 2"
    by (simp_all add: isInteger_def js_ge_def fl)
  have "submit ex (u ''2.5'') =
          Some \<lparr> correct = False, explanation = msg_integers, expected_answer = answer ex \<rparr>
        \<and> submit ex (u ''-3'') =
          Some \<lparr> correct = False, explanation = msg_integers, expected_answer = answer ex \<rparr>"
    if "type ex = fatoracao \<and> val ex = Some v \<and> v \<noteq> 0"
    using that a b c by (simp add: submit_def submit_factors_def)
  with a b c normalizeFactorsInput_finite show ?thesis by blast
qed

theorem parser_keeps_non_integers_witness:
  "isFinite (Fin (5 / 2))
   \<and> (\<exists>ex. generateExercise (1 / 2) 0 0 = Some ex
        \<and> submit ex (u ''2.5'') =
            Some \<lparr> correct = False, explanation = msg_integers, expected_answer = answer ex \<rparr>)"
proof -
  have r: "(2 / 5 :: rat) \<le> 1 / 2" "(1 / 2 :: rat) < 3 / 5" "(0::rat) \<le> 0" "(0::rat) < 1"
    by simp_all
  have n: "(12::int) = pick [12, 18, 20, 24, 36, 45, 50, 60] 0"
    by (simp add: pick_def random_index_def)
  from generate_fatoracao[OF r n, of 0]
  obtain ex where ex: "generateExercise (1 / 2) 0 0 = Some ex" "type ex = fatoracao"
    "val ex = Some 12" by blast
  have m: "Fin (5 / 2) \<in> set (normalizeFactorsInput (u ''2.5''))"
    using parser_keeps_non_integers[of "u ''2.5''" ex 12] by simp
  have "isFinite (Fin (5 / 2))"
    using parser_keeps_non_integers[of "u ''2.5''" ex 12] m by blast
  moreover have "submit ex (u ''2.5'') =
            Some \<lparr> correct = False, explanation = msg_integers, expected_answer = answer ex \<rparr>"
    using parser_keeps_non_integers[of "u ''2.5''" ex 12] ex by simp
  ultimately show ?thesis using ex(1) by blast
qed

section \<open>Parsing a joined factor list\<close>

subsection \<open>The steps of normalizeFactorsInput\<close>

lemma cleaned_eq_map:
  "replace_class {59, 44} (replace_class {215, 120, 88, 42, 183} (toLowerCase text))
     = map clean_unit text"
  by (simp add: replace_class_def toLowerCase_def clean_unit_def Let_def)

lemma number_unit_values:
  "number_unit c \<Longrightarrow> c \<in> {43, 46, 48, 49, 50, 51, 52, 53, 54, 55, 56, 57, 101}"
proof -
  assume "number_unit c"
  then consider "48 \<le> c \<and> c \<le> 57" | "c = 46" | "c = 101" | "c = 43"
    unfolding number_unit_def is_digit_def by blast
  then show ?thesis
  proof cases
    case 1
    then have "c = 48 \<or> c = 49 \<or> c = 50 \<or> c = 51 \<or> c = 52 \<or> c = 53 \<or> c = 54
        \<or> c = 55 \<or> c = 56 \<or> c = 57" by arith
    then show ?thesis by blast
  qed simp_all
qed

lemma number_unit_clean: "number_unit c \<Longrightarrow> clean_unit c = c \<and> \<not> is_ws c"
proof -
  assume "number_unit c"
  then have "c \<in> {43, 46, 48, 49, 50, 51, 52, 53, 54, 55, 56, 57, 101}"
    by (rule number_unit_values)
  then show ?thesis
    by (elim insertE emptyE)
      (simp_all add: clean_unit_def toLowerCase_unit_def is_ws_def Let_def)
qed

lemma is_ws_range: "is_ws c \<Longrightarrow> c \<le> 13 \<or> c = 32 \<or> c = 160 \<or> 5760 \<le> c"
  unfolding is_ws_def by (elim disjE insertE emptyE conjE) simp_all

lemma is_ws_clean: "is_ws c \<Longrightarrow> is_ws (clean_unit c)"
proof -
  assume w: "is_ws c"
  from is_ws_range[OF w] have "clean_unit c = c"
    by (elim disjE) (simp_all add: clean_unit_def toLowerCase_unit_def Let_def)
  with w show ?thesis by simp
qed

lemma separator_unit_clean:
  "c \<in> {120, 88, 215, 42, 183, 44, 59} \<or> is_ws c \<Longrightarrow> is_ws (clean_unit c)"
proof (cases "is_ws c")
  case True
  then show ?thesis by (rule is_ws_clean)
next
  case False
  assume "c \<in> {120, 88, 215, 42, 183, 44, 59} \<or> is_ws c"
  with False have "c \<in> {120, 88, 215, 42, 183, 44, 59}" by simp
  then have "clean_unit c = 32"
    by (elim insertE emptyE) (simp_all add: clean_unit_def toLowerCase_unit_def Let_def)
  then show ?thesis by (simp add: is_ws_def)
qed

lemma collapse_ws_word:
  "\<forall>c\<in>set w. \<not> is_ws c \<Longrightarrow> collapse_ws (w @ t) = w @ collapse_ws t"
  by (induction w) simp_all

lemma dropWhile_id: "t = [] \<or> \<not> P (hd t) \<Longrightarrow> dropWhile P t = t"
  by (cases t) auto

lemma collapse_ws_separator:
  assumes "s \<noteq> []" "\<forall>c\<in>set s. is_ws c" "t = [] \<or> \<not> is_ws (hd t)"
  shows "collapse_ws (s @ t) = 32 # collapse_ws t"
proof -
  obtain c s' where s: "s = c # s'" using assms(1) by (cases s) auto
  have "dropWhile is_ws (s' @ t) = dropWhile is_ws t"
    using assms(2) s by (intro dropWhile_append2) simp
  also have "\<dots> = t" using assms(3) by (rule dropWhile_id)
  finally show ?thesis using assms(2) s by simp
qed

lemma trim_id:
  assumes "s \<noteq> []" "\<not> is_ws (hd s)" "\<not> is_ws (last s)"
  shows "trim s = s"
proof -
  have "dropWhile is_ws s = s" using assms(2) by (intro dropWhile_id) simp
  moreover have "dropWhile is_ws (rev s) = rev s"
    using assms(1,3) by (intro dropWhile_id) (simp add: hd_rev)
  ultimately show ?thesis by (simp add: trim_def)
qed

lemma split_sp_word: "32 \<notin> set w \<Longrightarrow> split_sp w = [w]"
  by (induction w) auto

lemma split_sp_word_space: "32 \<notin> set w \<Longrightarrow> split_sp (w @ 32 # t) = w # split_sp t"
  by (induction w) auto

lemma split_sp_join:
  "ws \<noteq> [] \<Longrightarrow> \<forall>w\<in>set ws. 32 \<notin> set w \<Longrightarrow> split_sp (join [32] ws) = ws"
proof (induction "[32::nat]" ws rule: join.induct)
  case 1
  then show ?case by simp
next
  case (2 s)
  then show ?case by (simp add: split_sp_word)
next
  case (3 s t ss)
  then show ?case by (simp add: split_sp_word_space)
qed

lemma interleave_head:
  "\<exists>t. interleave (w # ws) ss = w @ t"
  by (cases ws; cases ss) auto

lemma join_head: "\<exists>t. join sep (w # ws) = w @ t"
  by (cases ws) auto

lemma join_nonempty: "w \<noteq> [] \<Longrightarrow> join sep (w # ws) \<noteq> []"
  using join_head[of sep w ws] by auto

lemma hd_join: "w \<noteq> [] \<Longrightarrow> hd (join sep (w # ws)) = hd w"
  using join_head[of sep w ws] by auto

lemma last_join:
  "ws \<noteq> [] \<Longrightarrow> \<forall>w\<in>set ws. w \<noteq> [] \<Longrightarrow> last (join sep ws) = last (last ws)"
proof (induction sep ws rule: join.induct)
  case (3 sep s t ss)
  then have "join sep (t # ss) \<noteq> []" by (intro join_nonempty) simp
  with 3 show ?case by simp
qed simp_all

lemma collapse_interleave:
  assumes "length ss + 1 = length ws"
    and "\<forall>w\<in>set ws. w \<noteq> [] \<and> (\<forall>c\<in>set w. number_unit c)"
    and "\<forall>s\<in>set ss. accepted_separator s"
  shows "collapse_ws (map clean_unit (interleave ws ss)) = join [32] ws"
  using assms
proof (induction ws ss rule: interleave.induct)
  case (1 ss)
  then show ?case by simp
next
  case (2 w ss)
  then have w: "map clean_unit w = w" "\<forall>c\<in>set w. \<not> is_ws c"
    by (auto simp: number_unit_clean intro: map_idI)
  from collapse_ws_word[OF w(2), of "[]"] w(1) show ?case by simp
next
  case (3 w w' ws)
  then show ?case by simp
next
  case (4 w w' ws s ss)
  have w: "map clean_unit w = w" "\<forall>c\<in>set w. \<not> is_ws c"
    using "4.prems"(2) by (auto simp: number_unit_clean intro: map_idI)
  have s: "map clean_unit s \<noteq> []" "\<forall>c\<in>set (map clean_unit s). is_ws c"
    using "4.prems"(3) by (auto simp: accepted_separator_def list_all_iff separator_unit_clean)
  define T where "T = map clean_unit (interleave (w' # ws) ss)"
  obtain t where t: "interleave (w' # ws) ss = w' @ t" using interleave_head by blast
  have w': "w' \<noteq> []" "number_unit (hd w')" using "4.prems"(2) by auto
  then have "T \<noteq> []" "hd T = clean_unit (hd w')" by (simp_all add: T_def t hd_append hd_map)
  with w'(2) have T: "T = [] \<or> \<not> is_ws (hd T)" by (simp add: number_unit_clean)
  have IH: "collapse_ws T = join [32] (w' # ws)"
    unfolding T_def using "4.prems" by (intro "4.IH") auto
  have "collapse_ws (map clean_unit (interleave (w # w' # ws) (s # ss)))
      = collapse_ws (w @ (map clean_unit s @ T))"
    by (simp add: w(1) T_def)
  also have "\<dots> = w @ collapse_ws (map clean_unit s @ T)"
    by (rule collapse_ws_word[OF w(2)])
  also have "collapse_ws (map clean_unit s @ T) = 32 # collapse_ws T"
    by (rule collapse_ws_separator[OF s T])
  finally show ?case by (simp add: IH)
qed

lemma tokens_of_interleave:
  assumes "ws \<noteq> []" "length ss + 1 = length ws"
    and "\<forall>w\<in>set ws. w \<noteq> [] \<and> (\<forall>c\<in>set w. number_unit c)"
    and "\<forall>s\<in>set ss. accepted_separator s"
  shows "normalizeFactorsInput (interleave ws ss) = filter isFinite (map Number ws)"
proof -
  obtain w ws' where ws: "ws = w # ws'" using assms(1) by (cases ws) auto
  have nows: "\<not> is_ws c" if "v \<in> set ws" "c \<in> set v" for v c
    using assms(3) that by (auto simp: number_unit_clean)
  have c: "collapse_ws (map clean_unit (interleave ws ss)) = join [32] ws"
    using assms(2-4) by (rule collapse_interleave)
  have ne: "join [32] ws \<noteq> []" unfolding ws using assms(3) ws by (intro join_nonempty) simp
  have "hd (join [32] ws) = hd w" unfolding ws using assms(3) ws by (intro hd_join) simp
  moreover have "hd w \<in> set w" using assms(3) ws by simp
  ultimately have h: "\<not> is_ws (hd (join [32] ws))" using nows[of w] ws by simp
  have "last (join [32] ws) = last (last ws)" using assms(1,3) by (intro last_join) auto
  moreover have "last ws \<in> set ws" using assms(1) by simp
  moreover then have "last (last ws) \<in> set (last ws)" using assms(3) by simp
  ultimately have l: "\<not> is_ws (last (join [32] ws))" using nows by simp
  have t: "trim (join [32] ws) = join [32] ws" using ne h l by (rule trim_id)
  have "32 \<notin> set v" if "v \<in> set ws" for v
  proof
    assume "32 \<in> set v"
    with nows[OF that] show False by (auto simp: is_ws_def)
  qed
  then have sp: "split_sp (join [32] ws) = ws" using assms(1) by (intro split_sp_join) auto
  show ?thesis
    unfolding normalizeFactorsInput_def cleaned_eq_map c t Let_def sp using ne by simp
qed

subsection \<open>Reading back a printed number\<close>

lemma is_digit_number_unit: "is_digit c \<Longrightarrow> number_unit c"
  by (simp add: number_unit_def)

lemma takeWhile_all: "\<forall>c\<in>set xs. P c \<Longrightarrow> takeWhile P xs = xs"
  by (induction xs) auto

lemma takeWhile_stop: "\<forall>c\<in>set xs. P c \<Longrightarrow> \<not> P y \<Longrightarrow> takeWhile P (xs @ y # ys) = xs"
  by (induction xs) auto

lemma dropWhile_stop: "\<forall>c\<in>set xs. P c \<Longrightarrow> \<not> P y \<Longrightarrow> dropWhile P (xs @ y # ys) = y # ys"
  by (induction xs) auto

lemma dropWhile_all: "\<forall>c\<in>set xs. P c \<Longrightarrow> dropWhile P xs = []"
  by (induction xs) auto

lemma exponent_part_plus:
  assumes "E \<noteq> []" "\<forall>c\<in>set E. is_digit c"
  shows "exponent_part ([101, 43] @ E) = Some (int (radix_value 10 E))"
  using assms by (simp add: exponent_part_def sign_split_def list_all_iff)

lemma literal_digits:
  assumes "ds \<noteq> []" "\<forall>c\<in>set ds. is_digit c"
  shows "StrUnsignedDecimalLiteral ds = Some (of_nat (radix_value 10 ds))"
  using assms
  by (simp add: StrUnsignedDecimalLiteral_def takeWhile_all dropWhile_all exponent_part_def)

lemma literal_digits_exponent:
  assumes "s \<noteq> []" "\<forall>c\<in>set s. is_digit c" "E \<noteq> []" "\<forall>c\<in>set E. is_digit c"
  shows "StrUnsignedDecimalLiteral (s @ [101, 43] @ E)
           = Some (of_nat (radix_value 10 s) * 10 ^ radix_value 10 E)"
proof -
  have nd: "\<not> is_digit 101" by (simp add: is_digit_def)
  have t: "takeWhile is_digit (s @ 101 # 43 # E) = s"
    using assms(2) nd by (rule takeWhile_stop)
  have d: "dropWhile is_digit (s @ 101 # 43 # E) = 101 # 43 # E"
    using assms(2) nd by (rule dropWhile_stop)
  show ?thesis
    using assms(1) exponent_part_plus[OF assms(3,4)]
    by (simp add: StrUnsignedDecimalLiteral_def t d)
qed

lemma literal_point_exponent:
  assumes "\<forall>c\<in>set fp. is_digit c" "is_digit a" "E \<noteq> []" "\<forall>c\<in>set E. is_digit c"
  shows "StrUnsignedDecimalLiteral (a # 46 # fp @ [101, 43] @ E)
           = Some (of_nat (radix_value 10 (a # fp)) / 10 ^ length fp * 10 ^ radix_value 10 E)"
proof -
  have nd: "\<not> is_digit 101" "\<not> is_digit 46" by (simp_all add: is_digit_def)
  have t: "takeWhile is_digit (fp @ 101 # 43 # E) = fp"
    using assms(1) nd(1) by (rule takeWhile_stop)
  have d: "dropWhile is_digit (fp @ 101 # 43 # E) = 101 # 43 # E"
    using assms(1) nd(1) by (rule dropWhile_stop)
  show ?thesis
    using assms(2) nd(2) exponent_part_plus[OF assms(3,4)]
    by (simp add: StrUnsignedDecimalLiteral_def t d)
qed

lemma radix_value_zeros: "radix_value 10 (s @ replicate m 48) = radix_value 10 s * 10 ^ m"
proof (induction m)
  case (Suc m)
  have "radix_value 10 (s @ replicate (Suc m) 48) = radix_value 10 ((s @ replicate m 48) @ [48])"
    by (simp add: replicate_append_same)
  also have "\<dots> = radix_value 10 (s @ replicate m 48) * 10 + digit_val 48"
    by (rule radix_value_snoc)
  finally show ?case using Suc by (simp add: digit_val_def)
qed simp

lemma strip_trailing_zeros_split:
  "ds = strip_trailing_zeros ds @ replicate (length ds - length (strip_trailing_zeros ds)) 48"
proof -
  define z where "z = takeWhile (\<lambda>c. c = 48) (rev ds)"
  have "\<forall>c\<in>set z. c = 48" unfolding z_def by (auto dest: set_takeWhileD)
  then have z: "z = replicate (length z) 48" by (simp add: replicate_length_same)
  have "rev ds = z @ dropWhile (\<lambda>c. c = 48) (rev ds)" by (simp add: z_def)
  then have "ds = rev (dropWhile (\<lambda>c. c = 48) (rev ds)) @ rev z"
    by (metis rev_append rev_rev_ident)
  then have ds: "ds = strip_trailing_zeros ds @ rev z" by (simp add: strip_trailing_zeros_def)
  then have "length ds = length (strip_trailing_zeros ds) + length z"
    by (metis length_append length_rev)
  then have "length z = length ds - length (strip_trailing_zeros ds)" by simp
  with z have "rev z = replicate (length ds - length (strip_trailing_zeros ds)) 48"
    by (metis rev_replicate)
  with ds show ?thesis by simp
qed

lemma hd_digits_of: "0 < n \<Longrightarrow> hd (digits_of n) \<noteq> 48"
proof (induction n rule: digits_of.induct)
  case (1 n)
  show ?case
  proof (cases "n < 10")
    case True
    with "1.prems" show ?thesis by (subst digits_of.simps) simp
  next
    case False
    then have "0 < n div 10" by simp
    with "1.IH" False have "hd (digits_of (n div 10)) \<noteq> 48" by simp
    with False show ?thesis
      by (subst digits_of.simps) (simp add: hd_append digits_of_nonempty)
  qed
qed

lemma strip_trailing_zeros_nonempty:
  assumes "ds \<noteq> []" "hd ds \<noteq> 48"
  shows "strip_trailing_zeros ds \<noteq> []"
proof
  assume "strip_trailing_zeros ds = []"
  then have "dropWhile (\<lambda>c. c = 48) (rev ds) = []" by (simp add: strip_trailing_zeros_def)
  then have "\<forall>c\<in>set (rev ds). c = 48" by (simp add: dropWhile_eq_Nil_conv)
  moreover have "hd ds \<in> set (rev ds)" using assms(1) by simp
  ultimately show False using assms(2) by blast
qed

lemma strip_trailing_zeros_subset: "set (strip_trailing_zeros ds) \<subseteq> set ds"
  unfolding strip_trailing_zeros_def by (auto dest: set_dropWhileD)

lemma Number_of_literal:
  assumes "t \<noteq> []" "is_digit (hd t)" "\<forall>c\<in>set t. number_unit c"
    and "StrUnsignedDecimalLiteral t = Some q"
  shows "Number t = to_number q"
proof -
  have "number_unit (hd t)" "number_unit (last t)" using assms(1,3) by simp_all
  then have "\<not> is_ws (hd t)" "\<not> is_ws (last t)" by (simp_all add: number_unit_clean)
  with assms(1) have tr: "trim t = t" by (intro trim_id)
  have nd: "NonDecimalIntegerLiteral t = None"
  proof (cases t)
    case (Cons z r)
    show ?thesis
    proof (cases r)
      case Nil
      with Cons show ?thesis by (simp add: NonDecimalIntegerLiteral_def)
    next
      case (Cons p ds)
      with \<open>t = z # r\<close> assms(3) have "number_unit p" by simp
      then have "p \<in> {43, 46, 48, 49, 50, 51, 52, 53, 54, 55, 56, 57, 101}"
        by (rule number_unit_values)
      then have "p \<noteq> 98 \<and> p \<noteq> 66 \<and> p \<noteq> 111 \<and> p \<noteq> 79 \<and> p \<noteq> 120 \<and> p \<noteq> 88"
        by auto
      with Cons \<open>t = z # r\<close> show ?thesis by (simp add: NonDecimalIntegerLiteral_def)
    qed
  qed (simp add: NonDecimalIntegerLiteral_def)
  have hd: "hd t \<noteq> 45" "hd t \<noteq> 43" "hd t \<noteq> 73"
    using assms(2) by (auto simp: is_digit_def)
  then have ss: "sign_split t = (False, t)" by (simp add: sign_split_def)
  have inf: "t \<noteq> u ''Infinity''"
  proof
    assume "t = u ''Infinity''"
    then have "hd t = 73" by (simp add: u_def)
    with hd(3) show False by simp
  qed
  show ?thesis
    using assms(1,4) inf by (simp add: Number_def tr nd ss)
qed

lemma Number_nat_toString:
  "Number (nat_toString n) = to_number (of_nat n)
   \<and> nat_toString n \<noteq> [] \<and> (\<forall>c\<in>set (nat_toString n). number_unit c)"
proof -
  define ds where "ds = digits_of n"
  have ds: "ds \<noteq> []" "\<forall>c\<in>set ds. is_digit c" "radix_value 10 ds = n"
    by (simp_all add: ds_def digits_of_nonempty digits_of_are_digits radix_value_digits_of)
  show ?thesis
  proof (cases "length ds \<le> 21")
    case True
    then have t: "nat_toString n = ds" by (simp add: nat_toString_def ds_def)
    have "is_digit (hd ds)" using ds(1,2) by simp
    moreover have u: "\<forall>c\<in>set ds. number_unit c" using ds(2) by (simp add: is_digit_number_unit)
    moreover have "StrUnsignedDecimalLiteral ds = Some (of_nat n)"
      using literal_digits[OF ds(1,2)] ds(3) by simp
    ultimately have "Number ds = to_number (of_nat n)" using ds(1) by (intro Number_of_literal)
    with t ds(1) u show ?thesis by simp
  next
    case False
    define s where "s = strip_trailing_zeros ds"
    define E where "E = digits_of (length ds - 1)"
    define m where "m = length ds - length s"
    have E: "E \<noteq> []" "\<forall>c\<in>set E. is_digit c" "radix_value 10 E = length ds - 1"
      by (simp_all add: E_def digits_of_nonempty digits_of_are_digits radix_value_digits_of)
    have "\<not> n < 10 ^ 21"
    proof
      assume "n < 10 ^ 21"
      then have "length (digits_of n) \<le> 21" by (rule length_digits_of_le) simp
      with False show False by (simp add: ds_def)
    qed
    then have "0 < n" by simp
    then have "hd ds \<noteq> 48" unfolding ds_def by (rule hd_digits_of)
    with ds(1) have s: "s \<noteq> []" unfolding s_def by (rule strip_trailing_zeros_nonempty)
    have sd: "\<forall>c\<in>set s. is_digit c"
      using strip_trailing_zeros_subset[of ds] ds(2) by (auto simp: s_def)
    have split: "ds = s @ replicate m 48"
      unfolding s_def m_def by (rule strip_trailing_zeros_split)
    then have len: "length ds = length s + m" by (metis length_append length_replicate)
    have val: "n = radix_value 10 s * 10 ^ m"
      using ds(3) radix_value_zeros[of s m] split by simp
    have t: "nat_toString n = (if length s = 1 then s else hd s # 46 # tl s) @ [101, 43] @ E"
      using False by (simp add: nat_toString_def ds_def[symmetric] s_def E_def Let_def)
    show ?thesis
    proof (cases "length s = 1")
      case True
      then have t1: "nat_toString n = s @ [101, 43] @ E" using t by simp
      have "StrUnsignedDecimalLiteral (s @ [101, 43] @ E)
              = Some (of_nat (radix_value 10 s) * 10 ^ radix_value 10 E)"
        by (rule literal_digits_exponent[OF s sd E(1,2)])
      also have "radix_value 10 E = m" using E(3) len True by simp
      also have "(of_nat (radix_value 10 s) * 10 ^ m :: rat) = of_nat n"
        using val by simp
      finally have lit: "StrUnsignedDecimalLiteral (nat_toString n) = Some (of_nat n)"
        using t1 by simp
      have nu: "\<forall>c\<in>set (nat_toString n). number_unit c"
        unfolding t1 using sd E(2) by (auto simp: number_unit_def)
      have "is_digit (hd (nat_toString n))" unfolding t1 using s sd by (simp add: hd_append)
      with lit nu have "Number (nat_toString n) = to_number (of_nat n)"
        using s t1 by (intro Number_of_literal) auto
      with nu s t1 show ?thesis by simp
    next
      case F: False
      obtain a fp where afp: "s = a # fp" using s by (cases s) auto
      then have t2: "nat_toString n = a # 46 # fp @ [101, 43] @ E" using t F by simp
      have a: "is_digit a" "\<forall>c\<in>set fp. is_digit c" using sd afp by simp_all
      have "StrUnsignedDecimalLiteral (a # 46 # fp @ [101, 43] @ E)
           = Some (of_nat (radix_value 10 (a # fp)) / 10 ^ length fp * 10 ^ radix_value 10 E)"
        by (rule literal_point_exponent[OF a(2,1) E(1,2)])
      also have "radix_value 10 E = length fp + m" using E(3) len afp by simp
      also have "(of_nat (radix_value 10 (a # fp)) / 10 ^ length fp * 10 ^ (length fp + m) :: rat)
                   = of_nat (radix_value 10 s) * 10 ^ m"
        by (simp add: afp power_add)
      also have "\<dots> = of_nat n" using val by simp
      finally have lit: "StrUnsignedDecimalLiteral (nat_toString n) = Some (of_nat n)"
        using t2 by simp
      have nu: "\<forall>c\<in>set (nat_toString n). number_unit c"
        unfolding t2 using a E(2) by (auto simp: number_unit_def)
      have "is_digit (hd (nat_toString n))" unfolding t2 using a by simp
      with lit nu have "Number (nat_toString n) = to_number (of_nat n)"
        using t2 by (intro Number_of_literal) auto
      with nu t2 show ?thesis by simp
    qed
  qed
qed

lemma to_number_in_range:
  assumes "0 \<le> x" "x \<le> MAX_SAFE_INTEGER"
  shows "to_number (of_int x) = Fin (of_int x)"
proof -
  have "x < 2 ^ 1024 - 2 ^ 970" using assms(2) by (simp add: MAX_SAFE_INTEGER_def)
  then have "(of_int x :: rat) < of_int (2 ^ 1024 - 2 ^ 970)" by (simp only: of_int_less_iff)
  then have "(of_int x :: rat) < 2 ^ 1024 - 2 ^ 970" by simp
  moreover have "\<bar>of_int x :: rat\<bar> = of_int x" using assms(1) by simp
  ultimately show ?thesis by (simp add: to_number_def)
qed

lemma Number_Number_toString:
  assumes "0 \<le> x" "x \<le> MAX_SAFE_INTEGER"
  shows "Number (Number_toString x) = Fin (of_int x)"
    and "Number_toString x \<noteq> []" and "\<forall>c\<in>set (Number_toString x). number_unit c"
proof -
  have s: "Number_toString x = nat_toString (nat x)" using assms(1) by (simp add: Number_toString_def)
  have "(of_nat (nat x) :: rat) = of_int x" using assms(1) by simp
  then show "Number (Number_toString x) = Fin (of_int x)"
    using Number_nat_toString[of "nat x"] to_number_in_range[OF assms] by (simp add: s)
  show "Number_toString x \<noteq> []" "\<forall>c\<in>set (Number_toString x). number_unit c"
    using Number_nat_toString[of "nat x"] by (simp_all add: s)
qed

section \<open>The claim about joined factor lists\<close>

text \<open>
  C7. For every non-empty list of integers from 2 up to \<open>2^53 - 1\<close>, the range in which
  an integer is printed with its own digits and read back without rounding, printed
  and joined with accepted separators, one between each two neighbours and each a
  non-empty string of separator characters and white space, \<open>normalizeFactorsInput\<close>
  returns the list itself, in the same order.
\<close>

theorem roundtrip_of_joined_factors:
  assumes "xs \<noteq> []" "\<forall>x\<in>set xs. 2 \<le> x \<and> x \<le> MAX_SAFE_INTEGER"
    and "length seps + 1 = length xs" "\<forall>s\<in>set seps. accepted_separator s"
  shows "normalizeFactorsInput (interleave (map Number_toString xs) seps)
           = map (\<lambda>x. Fin (of_int x)) xs"
proof -
  have r: "0 \<le> x \<and> x \<le> MAX_SAFE_INTEGER" if "x \<in> set xs" for x using assms(2) that by auto
  have w: "\<forall>w\<in>set (map Number_toString xs). w \<noteq> [] \<and> (\<forall>c\<in>set w. number_unit c)"
    using r Number_Number_toString(2,3) by auto
  have "normalizeFactorsInput (interleave (map Number_toString xs) seps)
          = filter isFinite (map Number (map Number_toString xs))"
    using assms(1,3,4) w by (intro tokens_of_interleave) simp_all
  also have "map Number (map Number_toString xs) = map (\<lambda>x. Fin (of_int x)) xs"
    using r Number_Number_toString(1) by simp
  also have "filter isFinite (map (\<lambda>x. Fin (of_int x)) xs) = map (\<lambda>x. Fin (of_int x)) xs"
    by (induction xs) (simp_all add: isFinite_def)
  finally show ?thesis .
qed

theorem roundtrip_of_joined_factors_witness:
  "[2, 3, 5, 7::int] \<noteq> [] \<and> (2::int) \<le> 7 \<and> (7::int) \<le> MAX_SAFE_INTEGER
   \<and> accepted_separator (u '' x '') \<and> accepted_separator [215] \<and> accepted_separator (u '', '')
   \<and> interleave (map Number_toString [2, 3, 5, 7]) [u '' x '', [215], u '', '']
        = u ''2 x 3'' @ [215] @ u ''5, 7''
   \<and> normalizeFactorsInput (u ''2 x 3'' @ [215] @ u ''5, 7'') = [Fin 2, Fin 3, Fin 5, Fin 7]"
proof -
  have x: "[2, 3, 5, 7::int] \<noteq> []" "\<forall>x\<in>set [2, 3, 5, 7::int]. 2 \<le> x \<and> x \<le> MAX_SAFE_INTEGER"
    by (simp_all add: MAX_SAFE_INTEGER_def)
  have l: "length [u '' x '', [215], u '', ''] + 1 = length [2, 3, 5, 7::int]" by simp
  have a: "accepted_separator (u '' x '')" "accepted_separator [215]"
    "accepted_separator (u '', '')"
    by (simp_all add: accepted_separator_def u_def is_ws_def)
  then have s: "\<forall>s\<in>set [u '' x '', [215], u '', '']. accepted_separator s" by simp
  have i: "interleave (map Number_toString [2, 3, 5, 7]) [u '' x '', [215], u '', '']
        = u ''2 x 3'' @ [215] @ u ''5, 7''"
    by (simp add: Number_toString_def nat_toString_def digits_of.simps u_def)
  from roundtrip_of_joined_factors[OF x l s] i
  have "normalizeFactorsInput (u ''2 x 3'' @ [215] @ u ''5, 7'') = [Fin 2, Fin 3, Fin 5, Fin 7]"
    by simp
  with x a i show ?thesis by (simp add: MAX_SAFE_INTEGER_def)
qed

end
